theory Spec2Isabelle
  imports Main "HOL-Library.Word"
begin

section \<open>Package reconcile: values, checksums and the comparator\<close>

subsection \<open>Byte slices\<close>

text \<open>
  A Go \<^verbatim>\<open>[]byte\<close> is a window on a backing array: \<open>elems\<close> are the bytes below its
  length, \<open>spare\<close> the bytes of the backing array between its length and its capacity.
  \<^verbatim>\<open>bytes.Compare\<close> sees \<open>elems\<close> only; the slice expression
  \<^verbatim>\<open>s[:n]\<close> is legal up to the capacity and panics beyond it.
\<close>

type_synonym byte = "8 word"

datatype bytes = Bytes (elems: "byte list") (spare: "byte list")

definition cap :: "bytes \<Rightarrow> nat" where
  "cap s = length (elems s) + length (spare s)"

datatype panic = SliceBoundsOutOfRange nat nat
  \<comment> \<open>\<^verbatim>\<open>slice bounds out of range [:n] with capacity c\<close>\<close>

definition slice_to :: "bytes \<Rightarrow> nat \<Rightarrow> panic + byte list" where
  \<comment> \<open>\<^verbatim>\<open>s[:n]\<close>, read as the bytes of the resulting slice\<close>
  "slice_to s n =
     (if n \<le> cap s then Inr (take n (elems s @ spare s))
      else Inl (SliceBoundsOutOfRange n (cap s)))"

definition bytes_Compare_ne :: "bytes \<Rightarrow> bytes \<Rightarrow> bool" where
  \<comment> \<open>\<^verbatim>\<open>bytes.Compare(a, b) != 0\<close>: lexicographic comparison is 0 exactly on equal contents\<close>
  "bytes_Compare_ne a b = (elems a \<noteq> elems b)"

subsection \<open>Formatting verbs\<close>

definition hexdigit :: "nat \<Rightarrow> char" where
  "hexdigit n = ''0123456789abcdef'' ! (n mod 16)"

definition fmt_x_byte :: "byte \<Rightarrow> string" where
  "fmt_x_byte b = [hexdigit (unat b div 16), hexdigit (unat b mod 16)]"

definition fmt_x :: "byte list \<Rightarrow> string" where
  \<comment> \<open>\<^verbatim>\<open>%x\<close> on a byte slice: two lower-case hexadecimal digits per byte\<close>
  "fmt_x bs = concat (map fmt_x_byte bs)"

fun fmt_nat :: "nat \<Rightarrow> string" where
  "fmt_nat n =
     (if n < 10 then [hexdigit n] else fmt_nat (n div 10) @ [hexdigit (n mod 10)])"

definition fmt_int :: "int \<Rightarrow> string" where
  "fmt_int i = (if i < 0 then CHR ''-'' # fmt_nat (nat (- i)) else fmt_nat (nat i))"

subsection \<open>Values behind \<^verbatim>\<open>interface{}\<close>\<close>

text \<open>
  The core handles values of type \<^verbatim>\<open>interface{}\<close> and looks at them in three ways
  only: the test against \<^verbatim>\<open>nil\<close>, the type assertion to \<^verbatim>\<open>Checksumed\<close> followed by
  \<^verbatim>\<open>Sum()\<close>, and \<^verbatim>\<open>reflect.DeepEqual\<close>; \<^verbatim>\<open>%v\<close> prints them. \<open>VNil\<close> is the nil
  interface, \<open>VInt\<close> and \<open>VStr\<close> are plain data without a \<^verbatim>\<open>Sum\<close> method, \<open>VNaN\<close>
  is the \<^verbatim>\<open>float64\<close> NaN, and \<open>VSummed r s\<close> is a value whose dynamic type implements
  \<^verbatim>\<open>Checksumed\<close>: \<open>r\<close> is what \<^verbatim>\<open>%v\<close> prints for it and \<open>s\<close> is what its
  \<^verbatim>\<open>Sum()\<close> returns.
\<close>

datatype val = VNil | VInt int | VStr string | VNaN | VSummed string bytes

fun Checksumed :: "val \<Rightarrow> bytes option" where
  \<comment> \<open>\<^verbatim>\<open>h, ok := a.(Checksumed)\<close> and then \<^verbatim>\<open>h.Sum()\<close>: \<open>None\<close> when \<open>ok\<close> is false\<close>
  "Checksumed (VSummed r s) = Some s"
| "Checksumed _ = None"

fun fmt_v :: "val \<Rightarrow> string" where
  "fmt_v VNil = ''<nil>''"
| "fmt_v (VInt i) = fmt_int i"
| "fmt_v (VStr s) = s"
| "fmt_v VNaN = ''NaN''"
| "fmt_v (VSummed r s) = r"

text \<open>
  \<^verbatim>\<open>reflect.DeepEqual\<close> holds of two values of the same dynamic type and the same
  contents, but it is not reflexive: a NaN is not deeply equal to itself (nor is a
  non-nil func value, for which \<open>VNaN\<close> stands as well). The comparator calls it only
  when at most one side is checksummed.
\<close>

definition DeepEqual :: "val \<Rightarrow> val \<Rightarrow> bool" where
  "DeepEqual a b = (a = b \<and> a \<noteq> VNaN)"

subsection \<open>Errors\<close>

datatype error = ErrHashMismatch | ErrDeepEqualMismatch | Errorf string

fun Error :: "error \<Rightarrow> string" where
  "Error ErrHashMismatch = ''checksum mismatch''"
| "Error ErrDeepEqualMismatch = ''reflect.Deepequal mismatch''"
| "Error (Errorf s) = s"

subsection \<open>compare\<close>

text \<open>
  The result is \<open>Inl p\<close> when the call panics, \<open>Inr None\<close> for the nil error and
  \<open>Inr (Some e)\<close> for the error \<open>e\<close>. The arguments of \<^verbatim>\<open>fmt.Errorf\<close> are evaluated
  from left to right, so \<^verbatim>\<open>desiredSum[:5]\<close> is sliced before \<^verbatim>\<open>currentSum[:5]\<close>.
\<close>

definition compare :: "val \<Rightarrow> val \<Rightarrow> panic + error option" where
  "compare a b =
     (case (Checksumed a, Checksumed b) of
        (Some desiredSum, Some currentSum) \<Rightarrow>
          if bytes_Compare_ne desiredSum currentSum then
            (case slice_to desiredSum 5 of
               Inl p \<Rightarrow> Inl p
             | Inr d5 \<Rightarrow>
                (case slice_to currentSum 5 of
                   Inl p \<Rightarrow> Inl p
                 | Inr c5 \<Rightarrow>
                     Inr (Some (Errorf (fmt_v a @ '' sum='' @ fmt_x d5 @ '' != '' @
                                        fmt_v b @ '' sum='' @ fmt_x c5)))))
          else Inr None
      | _ \<Rightarrow> if \<not> DeepEqual a b then Inr (Some ErrDeepEqualMismatch) else Inr None)"

section \<open>The State contract\<close>

text \<open>
  Modelled from the spec: \<^verbatim>\<open>State\<close> is an interface and no implementation of it is part
  of the source. The store below is the keyed store of the specification (a mapping from
  string keys to values that applies every mutation at once): \<open>Get\<close> answers the nil
  interface for a key it does not hold, \<open>Add\<close> and \<open>Update\<close> bind the key (in place when
  it is bound already, at the end otherwise), \<open>Delete\<close> removes it, and \<open>Walk\<close> calls
  the visitor once per entry, in the order of the store. As a Go map of
  \<^verbatim>\<open>interface{}\<close> would, the store can hold the nil interface as a value.

  The visitor of the source is a closure that appends to the captured variable
  \<^verbatim>\<open>updates\<close>; here the captured variable is threaded through \<open>Walk\<close>, and a panic of
  the visitor ends the walk.
\<close>

type_synonym State = "(string \<times> val) list"

definition Get :: "State \<Rightarrow> string \<Rightarrow> val" where
  "Get s k = (case map_of s k of None \<Rightarrow> VNil | Some x \<Rightarrow> x)"

fun Add :: "string \<Rightarrow> val \<Rightarrow> State \<Rightarrow> State" where
  "Add k x [] = [(k, x)]"
| "Add k x ((k', y) # s) = (if k' = k then (k, x) # s else (k', y) # Add k x s)"

definition Update :: "string \<Rightarrow> val \<Rightarrow> State \<Rightarrow> State" where
  "Update k x s = Add k x s"

definition Delete :: "string \<Rightarrow> State \<Rightarrow> State" where
  "Delete k s = filter (\<lambda>e. fst e \<noteq> k) s"

fun Walk :: "State \<Rightarrow> (string \<Rightarrow> val \<Rightarrow> 'a \<Rightarrow> panic + 'a) \<Rightarrow> 'a \<Rightarrow> panic + 'a" where
  "Walk [] f acc = Inr acc"
| "Walk ((k, x) # s) f acc =
     (case f k x acc of Inl p \<Rightarrow> Inl p | Inr acc' \<Rightarrow> Walk s f acc')"

definition keys :: "State \<Rightarrow> string list" where
  "keys s = map fst s"

section \<open>diff, fix and Reconcile\<close>

type_synonym state = int

abbreviation (input) new :: state where "new \<equiv> 0"
abbreviation (input) old :: state where "old \<equiv> 1"
abbreviation (input) dirty :: state where "dirty \<equiv> 2"

definition state_String :: "state \<Rightarrow> string" where
  "state_String i =
     (if i = 0 then ''Add''
      else if i = 1 then ''Delete''
      else if i = 2 then ''Update''
      else [])"

record update =
  u_key :: string
  u_state :: state
  u_v :: val
  u_why :: string

definition visit_desired :: "State \<Rightarrow> string \<Rightarrow> val \<Rightarrow> update list \<Rightarrow> panic + update list" where
  \<comment> \<open>the closure passed to \<^verbatim>\<open>desired.Walk\<close>\<close>
  "visit_desired current key x updates =
     (let n = \<lparr>u_key = key, u_state = 0, u_v = x, u_why = []\<rparr>;
          currentValue = Get current key
      in if currentValue = VNil then
           Inr (updates @
             [n\<lparr>u_state := new,
                u_why := ''current state doesn'' @ [CHR 0x27] @ ''t have '' @ key @
                         '' doesn'' @ [CHR 0x27] @ ''t exist''\<rparr>])
         else
           (case compare currentValue x of
              Inl p \<Rightarrow> Inl p
            | Inr (Some err) \<Rightarrow> Inr (updates @ [n\<lparr>u_state := dirty, u_why := Error err\<rparr>])
            | Inr None \<Rightarrow> Inr updates))"

definition visit_current :: "State \<Rightarrow> string \<Rightarrow> val \<Rightarrow> update list \<Rightarrow> panic + update list" where
  \<comment> \<open>the closure passed to \<^verbatim>\<open>current.Walk\<close>\<close>
  "visit_current desired key x updates =
     (if Get desired key = VNil then
        Inr (updates @
          [\<lparr>u_key = key, u_state = old, u_v = VNil,
            u_why = ''currentValue is with key '' @ key @ '' marked for deletion''\<rparr>])
      else Inr updates)"

definition diff :: "State \<Rightarrow> State \<Rightarrow> panic + update list" where
  "diff current desired =
     (case Walk desired (visit_desired current) [] of
        Inl p \<Rightarrow> Inl p
      | Inr updates \<Rightarrow> Walk current (visit_current desired) updates)"

definition trace_line :: "update \<Rightarrow> string" where
  \<comment> \<open>the message handed to \<^verbatim>\<open>log.Printf\<close>; \<^verbatim>\<open>%s\<close> prints a \<open>state\<close> through its \<^verbatim>\<open>String\<close> method\<close>
  "trace_line u =
     ''key:'' @ u_key u @ '' state:'' @ state_String (u_state u) @ [CHR 0x0A, CHR 0x09] @
     ''why:'' @ u_why u @ [CHR 0x0A] @ '' ''"

definition dispatch :: "update \<Rightarrow> State \<Rightarrow> State" where
  \<comment> \<open>the \<^verbatim>\<open>switch\<close> of \<open>fix\<close>; it has no default case\<close>
  "dispatch u current =
     (if u_state u = new then Add (u_key u) (u_v u) current
      else if u_state u = old then Delete (u_key u) current
      else if u_state u = dirty then Update (u_key u) (u_v u) current
      else current)"

text \<open>
  \<open>fix_updates\<close> is \<^verbatim>\<open>fix\<close> of the source (\<open>fix\<close> is a keyword of the proof language).
  It returns the store after the mutations and the messages logged, in order.
\<close>

fun fix_updates :: "State \<Rightarrow> update list \<Rightarrow> bool \<Rightarrow> State \<times> string list" where
  "fix_updates current [] verbose = (current, [])"
| "fix_updates current (u # updates) verbose =
     (let (current', logged) = fix_updates (dispatch u current) updates verbose
      in (current', (if verbose then [trace_line u] else []) @ logged))"

definition Reconcile :: "State \<Rightarrow> State \<Rightarrow> bool \<Rightarrow> panic + State \<times> string list" where
  "Reconcile current desired verbose =
     (case diff current desired of
        Inl p \<Rightarrow> Inl p
      | Inr updates \<Rightarrow> Inr (fix_updates current updates verbose))"

section \<open>Package source: the parser of compiler messages\<close>

subsection \<open>The fragment of \<^verbatim>\<open>regexp\<close> that \<open>validMessage\<close> uses\<close>

text \<open>
  Go strings are byte strings, which \<^verbatim>\<open>regexp\<close> reads rune by rune:
  \<open>rune_width s\<close> is the number of bytes that \<^verbatim>\<open>utf8.DecodeRuneInString\<close> takes from
  the front of \<open>s\<close> (one byte for an invalid encoding). The classes
  \<^verbatim>\<open>[[:alnum:]]\<close> and \<^verbatim>\<open>[0-9]\<close> hold ASCII characters only, and \<^verbatim>\<open>.\<close> matches every
  rune but the newline.
\<close>

definition byte_in :: "char \<Rightarrow> nat \<Rightarrow> nat \<Rightarrow> bool" where
  "byte_in c lo hi = (lo \<le> of_char c \<and> (of_char c :: nat) \<le> hi)"

fun rune_width :: "string \<Rightarrow> nat" where
  "rune_width [] = 0"
| "rune_width (c # s) =
     (if byte_in c 0x00 0x7F then 1
      else if byte_in c 0xC2 0xDF then
        (case s of
           b1 # _ \<Rightarrow> if byte_in b1 0x80 0xBF then 2 else 1
         | _ \<Rightarrow> 1)
      else if byte_in c 0xE0 0xEF then
        (case s of
           b1 # b2 # _ \<Rightarrow>
             if byte_in b1 (if c = CHR 0xE0 then 0xA0 else 0x80)
                           (if c = CHR 0xED then 0x9F else 0xBF) \<and>
                byte_in b2 0x80 0xBF
             then 3 else 1
         | _ \<Rightarrow> 1)
      else if byte_in c 0xF0 0xF4 then
        (case s of
           b1 # b2 # b3 # _ \<Rightarrow>
             if byte_in b1 (if c = CHR 0xF0 then 0x90 else 0x80)
                           (if c = CHR 0xF4 then 0x8F else 0xBF) \<and>
                byte_in b2 0x80 0xBF \<and> byte_in b3 0x80 0xBF
             then 4 else 1
         | _ \<Rightarrow> 1)
      else 1)"

definition is_digit :: "char \<Rightarrow> bool" where
  "is_digit c = byte_in c 0x30 0x39"

definition is_alnum :: "char \<Rightarrow> bool" where
  "is_alnum c = (byte_in c 0x30 0x39 \<or> byte_in c 0x41 0x5A \<or> byte_in c 0x61 0x7A)"

datatype atom = Lit char | Alnum | Digit | AnyChar

fun atom_width :: "atom \<Rightarrow> string \<Rightarrow> nat option" where
  \<comment> \<open>the bytes one occurrence of the atom takes from the front of the input, if it matches\<close>
  "atom_width a [] = None"
| "atom_width (Lit l) (c # s) = (if c = l then Some 1 else None)"
| "atom_width Alnum (c # s) = (if is_alnum c then Some 1 else None)"
| "atom_width Digit (c # s) = (if is_digit c then Some 1 else None)"
| "atom_width AnyChar (c # s) = (if c = CHR 0x0A then None else Some (rune_width (c # s)))"

datatype regex =
    Atom atom
  | Plus atom
  | Star atom
  | Quest regex
  | Cat regex regex
  | Cap nat regex

text \<open>
  A thread of the backtracking search: the input still to read and the text of the
  capture groups closed so far (the latest first). \<open>run r t\<close> lists the threads after
  \<open>r\<close> in the order in which a backtracking search tries them, so the greedy operators
  put the longer repetition first; \<^verbatim>\<open>regexp\<close> returns the match that such a search
  finds first.
\<close>

type_synonym thread = "string \<times> (nat \<times> string) list"

fun star_alts :: "atom \<Rightarrow> string \<Rightarrow> string list" where
  "star_alts a s =
     (case atom_width a s of
        None \<Rightarrow> [s]
      | Some w \<Rightarrow> if 0 < w \<and> s \<noteq> [] then star_alts a (drop w s) @ [s] else [s])"

declare star_alts.simps [simp del]

definition plus_alts :: "atom \<Rightarrow> string \<Rightarrow> string list" where
  "plus_alts a s = (case atom_width a s of None \<Rightarrow> [] | Some w \<Rightarrow> star_alts a (drop w s))"

fun run :: "regex \<Rightarrow> thread \<Rightarrow> thread list" where
  "run (Atom a) (s, caps) = (case atom_width a s of None \<Rightarrow> [] | Some w \<Rightarrow> [(drop w s, caps)])"
| "run (Plus a) (s, caps) = map (\<lambda>s'. (s', caps)) (plus_alts a s)"
| "run (Star a) (s, caps) = map (\<lambda>s'. (s', caps)) (star_alts a s)"
| "run (Quest r) t = run r t @ [t]"
| "run (Cat r1 r2) t = concat (map (run r2) (run r1 t))"
| "run (Cap i r) (s, caps) =
     map (\<lambda>(s', caps'). (s', (i, take (length s - length s') s) # caps')) (run r (s, caps))"

text \<open>
  \<open>search\<close> is the leftmost match from the front of \<open>s\<close>: the input from the start
  of the match, the input after the match, and the capture groups.
\<close>

fun search :: "regex \<Rightarrow> string \<Rightarrow> (string \<times> string \<times> (nat \<times> string) list) option" where
  "search r [] = (case run r ([], []) of [] \<Rightarrow> None | (s', caps) # _ \<Rightarrow> Some ([], s', caps))"
| "search r (c # s) =
     (case run r (c # s, []) of
        [] \<Rightarrow> search r s
      | (s', caps) # _ \<Rightarrow> Some (c # s, s', caps))"

fun NumSubexp :: "regex \<Rightarrow> nat" where
  "NumSubexp (Quest r) = NumSubexp r"
| "NumSubexp (Cat r1 r2) = NumSubexp r1 + NumSubexp r2"
| "NumSubexp (Cap i r) = Suc (NumSubexp r)"
| "NumSubexp _ = 0"

definition submatches :: "nat \<Rightarrow> string \<Rightarrow> string \<Rightarrow> (nat \<times> string) list \<Rightarrow> string list" where
  \<comment> \<open>the whole match and the \<open>n\<close> groups; a group that took no part is the empty string\<close>
  "submatches n m s' caps =
     take (length m - length s') m #
     map (\<lambda>i. case map_of caps i of None \<Rightarrow> [] | Some g \<Rightarrow> g) [1..<Suc n]"

text \<open>
  \<^verbatim>\<open>FindAllStringSubmatch(s, -1)\<close>: the successive matches, each search starting where
  the match before ended; every match is the whole match followed by the
  \<^verbatim>\<open>NumSubexp\<close> groups. \<open>prev\<close> says that a match ended at the front of \<open>s\<close>; an empty
  match there is dropped, and after an empty match the search moves on by one rune.
\<close>

function FindAllStringSubmatch :: "regex \<Rightarrow> bool \<Rightarrow> string \<Rightarrow> string list list" where
  "FindAllStringSubmatch r prev s =
     (case search r s of
        None \<Rightarrow> []
      | Some (m, s', caps) \<Rightarrow>
          if length s' < length s then
            submatches (NumSubexp r) m s' caps # FindAllStringSubmatch r True s'
          else
            (if prev then [] else [submatches (NumSubexp r) m s' caps]) @
            (if s = [] then [] else FindAllStringSubmatch r False (drop (rune_width s) s)))"
  by pat_completeness auto
termination
proof (relation "measure (\<lambda>(r, prev, s). length s)")
  show "wf (measure (\<lambda>(r, prev, s). length s))" by simp
next
  fix r :: regex and prev :: bool and s s' :: string
  assume "length s' < length s"
  then show "((r, True, s'), (r, prev, s)) \<in> measure (\<lambda>(r, prev, s). length s)"
    by simp
next
  fix r :: regex and prev :: bool and s :: string
  assume "s \<noteq> []"
  then obtain c t where "s = c # t" by (cases s) auto
  then have "0 < rune_width s" by (auto split: list.splits)
  with \<open>s \<noteq> []\<close>
  show "((r, False, drop (rune_width s) s), (r, prev, s)) \<in>
        measure (\<lambda>(r, prev, s). length s)"
    by simp
qed

declare FindAllStringSubmatch.simps [simp del]

subsection \<open>\<^verbatim>\<open>strconv.Atoi\<close>\<close>

text \<open>
  An optional sign and at least one decimal digit; \<open>None\<close> stands for a non-nil error
  (bad syntax, or a value outside the 64-bit \<^verbatim>\<open>int\<close>).
\<close>

definition digits_value :: "string \<Rightarrow> int" where
  "digits_value ds = foldl (\<lambda>n c. n * 10 + (of_char c - 48)) 0 ds"

definition Atoi :: "string \<Rightarrow> int option" where
  "Atoi s =
     (let neg = (s \<noteq> [] \<and> hd s = CHR ''-'');
          ds = (if s \<noteq> [] \<and> (hd s = CHR ''-'' \<or> hd s = CHR ''+'') then tl s else s)
      in if ds = [] \<or> \<not> list_all is_digit ds then None
         else if neg then
           (if 2 ^ 63 < digits_value ds then None else Some (- digits_value ds))
         else
           (if 2 ^ 63 \<le> digits_value ds then None else Some (digits_value ds)))"

subsection \<open>ParseSourceErrors\<close>

text \<open>The struct \<^verbatim>\<open>Error\<close> of package \<^verbatim>\<open>source\<close>.\<close>

record source_Error =
  File :: string
  Line :: int
  Column :: int
  Message :: string

definition validMessage :: regex where
  \<comment> \<open>\<^verbatim>\<open>([[:alnum:]]+.[[:alnum:]]+):([0-9]+):([0-9]+)?:? (.*)\<close>\<close>
  "validMessage =
     Cat (Cap 1 (Cat (Plus Alnum) (Cat (Atom AnyChar) (Plus Alnum))))
    (Cat (Atom (Lit (CHR '':'')))
    (Cat (Cap 2 (Plus Digit))
    (Cat (Atom (Lit (CHR '':'')))
    (Cat (Quest (Cap 3 (Plus Digit)))
    (Cat (Quest (Atom (Lit (CHR '':''))))
    (Cat (Atom (Lit (CHR '' '')))
         (Cap 4 (Star AnyChar))))))))"

definition parse_match :: "string list \<Rightarrow> source_Error" where
  \<comment> \<open>the body of the loop, for one match \<^verbatim>\<open>message\<close>\<close>
  "parse_match message =
     (let e = \<lparr>File = message ! 1, Line = 0, Column = 0, Message = []\<rparr>;
          e = (case Atoi (message ! 2) of Some line \<Rightarrow> e\<lparr>Line := line\<rparr> | None \<Rightarrow> e);
          e = (case Atoi (message ! 3) of
                 Some column \<Rightarrow> e\<lparr>Column := column\<rparr>
               | None \<Rightarrow> e\<lparr>Column := - 1, Message := message ! 3\<rparr>);
          e = (if length message > 3 then e\<lparr>Message := message ! 4\<rparr> else e)
      in e)"

definition ParseSourceErrors :: "string \<Rightarrow> source_Error list" where
  "ParseSourceErrors message =
     map parse_match (FindAllStringSubmatch validMessage False message)"

section \<open>Auxiliary notions for the statements and proofs\<close>

text \<open>
  What one call of each visitor appends to \<^verbatim>\<open>updates\<close> when it returns, read off the
  visitor itself.
\<close>

definition emitted_desired :: "State \<Rightarrow> string \<times> val \<Rightarrow> update list" where
  "emitted_desired current e =
     (case visit_desired current (fst e) (snd e) [] of Inl p \<Rightarrow> [] | Inr us \<Rightarrow> us)"

definition emitted_current :: "State \<Rightarrow> string \<times> val \<Rightarrow> update list" where
  "emitted_current desired e =
     (case visit_current desired (fst e) (snd e) [] of Inl p \<Rightarrow> [] | Inr us \<Rightarrow> us)"

text \<open>
  The State contract of the specification: keys are unique, and a store does not hold
  the nil interface as a value, since \<open>Get\<close> answering nil is the only sign of absence.
\<close>

definition well_formed :: "State \<Rightarrow> bool" where
  "well_formed s = (distinct (keys s) \<and> VNil \<notin> snd ` set s)"

text \<open>A value whose checksum, when it has one, can be sliced to five bytes.\<close>

definition sliceable :: "val \<Rightarrow> bool" where
  "sliceable x = (case Checksumed x of None \<Rightarrow> True | Some s \<Rightarrow> 5 \<le> cap s)"

text \<open>The thread that the backtracking search reaches first, which decides the match.\<close>

definition first_thread :: "regex \<Rightarrow> thread \<Rightarrow> thread option" where
  "first_thread r t = (case run r t of [] \<Rightarrow> None | t' # _ \<Rightarrow> Some t')"

text \<open>A regular expression none of whose atoms is the literal newline.\<close>

fun newline_free :: "regex \<Rightarrow> bool" where
  "newline_free (Atom a) = (a \<noteq> Lit (CHR 0x0A))"
| "newline_free (Plus a) = (a \<noteq> Lit (CHR 0x0A))"
| "newline_free (Star a) = (a \<noteq> Lit (CHR 0x0A))"
| "newline_free (Quest r) = newline_free r"
| "newline_free (Cat r1 r2) = (newline_free r1 \<and> newline_free r2)"
| "newline_free (Cap i r) = newline_free r"

section \<open>The walks of diff and the store\<close>

lemma visit_desired_append:
  "visit_desired current k x acc = Inr us \<Longrightarrow> us = acc @ emitted_desired current (k, x)"
  by (auto simp: visit_desired_def emitted_desired_def Let_def split: if_splits sum.splits option.splits)

lemma visit_current_append:
  "visit_current desired k x acc = Inr (acc @ emitted_current desired (k, x))"
  by (auto simp: visit_current_def emitted_current_def)

lemma Walk_visit_desired:
  "Walk desired (visit_desired current) acc = Inr us \<Longrightarrow>
   us = acc @ concat (map (emitted_desired current) desired)"
proof (induction desired arbitrary: acc)
  case Nil
  then show ?case by simp
next
  case (Cons e desired)
  obtain k x where e: "e = (k, x)" by (cases e)
  from Cons.prems e obtain acc' where
    v: "visit_desired current k x acc = Inr acc'" and
    w: "Walk desired (visit_desired current) acc' = Inr us"
    by (auto split: sum.splits)
  from visit_desired_append [OF v] Cons.IH [OF w] e show ?case by simp
qed

lemma Walk_visit_current:
  "Walk current (visit_current desired) acc =
   Inr (acc @ concat (map (emitted_current desired) current))"
proof (induction current arbitrary: acc)
  case Nil
  then show ?case by simp
next
  case (Cons e current)
  obtain k x where e: "e = (k, x)" by (cases e)
  have "visit_current desired k x acc = Inr (acc @ emitted_current desired (k, x))"
    by (rule visit_current_append)
  then show ?case using Cons.IH by (simp add: e)
qed

lemma diff_Inr:
  "diff current desired = Inr us \<Longrightarrow>
   us = concat (map (emitted_desired current) desired) @
        concat (map (emitted_current desired) current)"
  by (auto simp: diff_def Walk_visit_current split: sum.splits dest: Walk_visit_desired)


lemma emitted_current_eq:
  "emitted_current desired (k, x) =
     (if Get desired k = VNil then
        [\<lparr>u_key = k, u_state = old, u_v = VNil,
          u_why = ''currentValue is with key '' @ k @ '' marked for deletion''\<rparr>]
      else [])"
  by (simp add: emitted_current_def visit_current_def)

lemma emitted_desired_absent:
  "Get current k = VNil \<Longrightarrow>
   emitted_desired current (k, x) =
     [\<lparr>u_key = k, u_state = new, u_v = x,
       u_why = ''current state doesn'' @ [CHR 0x27] @ ''t have '' @ k @
               '' doesn'' @ [CHR 0x27] @ ''t exist''\<rparr>]"
  by (simp add: emitted_desired_def visit_desired_def)

lemma emitted_desired_present:
  "Get current k \<noteq> VNil \<Longrightarrow>
   emitted_desired current (k, x) =
     (case compare (Get current k) x of
        Inr (Some err) \<Rightarrow> [\<lparr>u_key = k, u_state = dirty, u_v = x, u_why = Error err\<rparr>]
      | _ \<Rightarrow> [])"
  by (simp add: emitted_desired_def visit_desired_def split: sum.splits option.splits)

lemma emitted_desired_cases:
  "emitted_desired current (k, x) = [] \<or>
   (\<exists>w. emitted_desired current (k, x) = [\<lparr>u_key = k, u_state = new, u_v = x, u_why = w\<rparr>]
        \<and> Get current k = VNil) \<or>
   (\<exists>w. emitted_desired current (k, x) = [\<lparr>u_key = k, u_state = dirty, u_v = x, u_why = w\<rparr>]
        \<and> Get current k \<noteq> VNil)"
  by (cases "Get current k = VNil")
     (auto simp: emitted_desired_absent emitted_desired_present split: sum.splits option.splits)

lemma emitted_desired_key: "u \<in> set (emitted_desired current e) \<Longrightarrow> u_key u = fst e"
  using emitted_desired_cases [of current "fst e" "snd e"] by auto

lemma emitted_desired_state:
  "u \<in> set (emitted_desired current e) \<Longrightarrow> u_state u = new \<or> u_state u = dirty"
  using emitted_desired_cases [of current "fst e" "snd e"] by auto

lemma emitted_current_key: "u \<in> set (emitted_current desired e) \<Longrightarrow> u_key u = fst e"
  using emitted_current_eq [of desired "fst e" "snd e"] by (auto split: if_splits)

lemma emitted_current_state: "u \<in> set (emitted_current desired e) \<Longrightarrow> u_state u = old"
  using emitted_current_eq [of desired "fst e" "snd e"] by (auto split: if_splits)

lemma filter_key_concat_other:
  assumes "\<And>e u. u \<in> set (f e) \<Longrightarrow> u_key u = fst e" and "k \<notin> fst ` set s"
  shows "filter (\<lambda>u. u_key u = k) (concat (map f s)) = []"
  using assms by (induction s) (auto simp: filter_empty_conv)

lemma filter_key_concat_distinct:
  assumes "\<And>e u. u \<in> set (f e) \<Longrightarrow> u_key u = fst e"
    and "distinct (map fst s)" and "(k, x) \<in> set s"
  shows "filter (\<lambda>u. u_key u = k) (concat (map f s)) = f (k, x)"
  using assms(2,3)
proof (induction s)
  case Nil
  then show ?case by simp
next
  case (Cons e s)
  show ?case
  proof (cases "e = (k, x)")
    case True
    with Cons.prems have "k \<notin> fst ` set s" by auto
    from filter_key_concat_other [of f, OF assms(1) this]
    have "filter (\<lambda>u. u_key u = k) (concat (map f s)) = []" by simp
    moreover have "filter (\<lambda>u. u_key u = k) (f e) = f e"
      using assms(1) [of _ e] True by (auto simp: filter_id_conv)
    ultimately show ?thesis using True by simp
  next
    case False
    with Cons.prems have in_s: "(k, x) \<in> set s" and "fst e \<noteq> k"
      by (auto simp: image_iff)
    then have "filter (\<lambda>u. u_key u = k) (f e) = []"
      using assms(1) [of _ e] by (auto simp: filter_empty_conv)
    with Cons.IH in_s Cons.prems show ?thesis by simp
  qed
qed

lemma Get_in: "distinct (map fst s) \<Longrightarrow> (k, x) \<in> set s \<Longrightarrow> Get s k = x"
  by (simp add: Get_def)

lemma Get_notin: "k \<notin> fst ` set s \<Longrightarrow> Get s k = VNil"
  by (simp add: Get_def map_of_eq_None_iff [THEN iffD2])

lemma Get_Add: "Get (Add k x s) k' = (if k' = k then x else Get s k')"
  by (induction s) (auto simp: Get_def)

lemma Get_Delete: "Get (Delete k s) k' = (if k' = k then VNil else Get s k')"
  by (induction s) (auto simp: Get_def Delete_def)

lemma Get_dispatch_other: "u_key u \<noteq> k \<Longrightarrow> Get (dispatch u s) k = Get s k"
  by (simp add: dispatch_def Get_Add Get_Delete Update_def)

lemma Get_dispatch_cong:
  "Get s k = Get s' k \<Longrightarrow> Get (dispatch u s) k = Get (dispatch u s') k"
  by (auto simp: dispatch_def Get_Add Get_Delete Update_def)

lemma fst_fix_updates: "fst (fix_updates current us verbose) = fold dispatch us current"
proof (induction us arbitrary: current)
  case Nil
  then show ?case by simp
next
  case (Cons u us)
  from Cons.IH [of "dispatch u current"] show ?case
    by (simp add: split_beta)
qed

lemma snd_fix_updates:
  "snd (fix_updates current us verbose) = (if verbose then map trace_line us else [])"
proof (induction us arbitrary: current)
  case Nil
  then show ?case by simp
next
  case (Cons u us)
  from Cons.IH [of "dispatch u current"] show ?case
    by (simp add: split_beta)
qed

lemma Get_fold_dispatch_filter:
  "Get s k = Get s' k \<Longrightarrow>
   Get (fold dispatch us s) k = Get (fold dispatch (filter (\<lambda>u. u_key u = k) us) s') k"
proof (induction us arbitrary: s s')
  case Nil
  then show ?case by simp
next
  case (Cons u us)
  show ?case
  proof (cases "u_key u = k")
    case True
    from Cons.prems have "Get (dispatch u s) k = Get (dispatch u s') k"
      by (rule Get_dispatch_cong)
    from Cons.IH [OF this] True show ?thesis by simp
  next
    case False
    with Cons.prems have "Get (dispatch u s) k = Get s' k"
      by (simp add: Get_dispatch_other)
    from Cons.IH [OF this] False show ?thesis by simp
  qed
qed

lemma filter_key_emitted_current:
  "filter (\<lambda>u. u_key u = k) (concat (map (emitted_current desired) current)) =
     (if Get desired k = VNil then
        map (\<lambda>e. \<lparr>u_key = k, u_state = old, u_v = VNil,
                   u_why = ''currentValue is with key '' @ k @ '' marked for deletion''\<rparr>)
            (filter (\<lambda>e. fst e = k) current)
      else [])"
proof (induction current)
  case Nil
  then show ?case by simp
next
  case (Cons e current)
  obtain k' x where e: "e = (k', x)" by (cases e)
  show ?case using Cons.IH by (auto simp: e emitted_current_eq)
qed

lemma filter_key_emitted_desired:
  assumes "distinct (keys desired)" and "(k, x) \<in> set desired"
  shows "filter (\<lambda>u. u_key u = k) (concat (map (emitted_desired current) desired)) =
         emitted_desired current (k, x)"
  using assms filter_key_concat_distinct [of "emitted_desired current" desired k x]
  by (simp add: keys_def emitted_desired_key)

lemma filter_key_emitted_desired_other:
  assumes "k \<notin> set (keys desired)"
  shows "filter (\<lambda>u. u_key u = k) (concat (map (emitted_desired current) desired)) = []"
  using assms filter_key_concat_other [of "emitted_desired current" k desired]
  by (simp add: keys_def emitted_desired_key)

lemma filter_distinct_key:
  "distinct (map fst s) \<Longrightarrow> (k, x) \<in> set s \<Longrightarrow> filter (\<lambda>e. fst e = k) s = [(k, x)]"
proof (induction s)
  case Nil
  then show ?case by simp
next
  case (Cons e s)
  show ?case
  proof (cases "e = (k, x)")
    case True
    with Cons.prems have "k \<notin> fst ` set s" by auto
    then have "filter (\<lambda>e. fst e = k) s = []" by (auto simp: filter_empty_conv)
    with True show ?thesis by simp
  next
    case False
    with Cons.prems have "(k, x) \<in> set s" and "fst e \<noteq> k" by (auto simp: image_iff)
    with Cons.IH Cons.prems show ?thesis by simp
  qed
qed

lemma Get_fold_deletes:
  "\<forall>u \<in> set us. u_key u = k \<and> u_state u = old \<Longrightarrow> Get s k = VNil \<Longrightarrow>
   Get (fold dispatch us s) k = VNil"
proof (induction us arbitrary: s)
  case Nil
  then show ?case by simp
next
  case (Cons u us)
  from Cons.prems have u: "u_key u = k" "u_state u = old" by simp_all
  then have "Get (dispatch u s) k = VNil" by (simp add: dispatch_def Get_Delete)
  moreover from Cons.prems have "\<forall>u \<in> set us. u_key u = k \<and> u_state u = old" by simp
  ultimately have "Get (fold dispatch us (dispatch u s)) k = VNil" by (rule Cons.IH [rotated])
  then show ?case by simp
qed

lemma Get_well_formed:
  "well_formed s \<Longrightarrow> (k, x) \<in> set s \<Longrightarrow> Get s k = x \<and> x \<noteq> VNil"
  by (auto simp: well_formed_def keys_def Get_in image_iff)

lemma Get_nil_iff:
  "VNil \<notin> snd ` set s \<Longrightarrow> (Get s k = VNil) = (k \<notin> set (keys s))"
proof
  assume nn: "VNil \<notin> snd ` set s" and g: "Get s k = VNil"
  show "k \<notin> set (keys s)"
  proof
    assume "k \<in> set (keys s)"
    then have "map_of s k \<noteq> None"
      by (simp add: keys_def map_of_eq_None_iff)
    then obtain y where "map_of s k = Some y" by blast
    moreover from this have "(k, y) \<in> set s" by (rule map_of_SomeD)
    ultimately show False using nn g by (auto simp: Get_def image_iff)
  qed
next
  assume "k \<notin> set (keys s)"
  then show "Get s k = VNil" by (simp add: Get_notin keys_def)
qed

lemma compare_refl: "x \<noteq> VNaN \<Longrightarrow> compare x x = Inr None"
  by (cases x) (simp_all add: compare_def DeepEqual_def bytes_Compare_ne_def)

lemma compare_NaN: "compare VNaN VNaN = Inr (Some ErrDeepEqualMismatch)"
  by (simp add: compare_def DeepEqual_def)

lemma Walk_unchanged:
  "(\<And>k x. (k, x) \<in> set s \<Longrightarrow> f k x acc = Inr acc) \<Longrightarrow> Walk s f acc = Inr acc"
  by (induction s) auto

lemma Walk_visit_desired_each:
  "Walk desired (visit_desired current) acc = Inr us \<Longrightarrow> (k, x) \<in> set desired \<Longrightarrow>
   \<exists>us'. visit_desired current k x [] = Inr us'"
proof (induction desired arbitrary: acc)
  case Nil
  then show ?case by simp
next
  case (Cons e desired)
  obtain k' x' where e: "e = (k', x')" by (cases e)
  from Cons.prems(1) e obtain acc' where
    v: "visit_desired current k' x' acc = Inr acc'" and
    w: "Walk desired (visit_desired current) acc' = Inr us"
    by (auto split: sum.splits)
  show ?case
  proof (cases "(k, x) = (k', x')")
    case True
    with v show ?thesis
      by (auto simp: visit_desired_def Let_def split: if_splits sum.splits option.splits)
  next
    case False
    with Cons.prems(2) e have "(k, x) \<in> set desired" by auto
    from Cons.IH [OF w this] show ?thesis .
  qed
qed

lemma visit_desired_silent:
  "Get current k \<noteq> VNil \<Longrightarrow> compare (Get current k) x = Inr None \<Longrightarrow>
   visit_desired current k x acc = Inr acc"
  by (simp add: visit_desired_def)

lemma emitted_desired_empty:
  assumes "visit_desired current k x [] = Inr us'" and "emitted_desired current (k, x) = []"
  shows "Get current k \<noteq> VNil \<and> compare (Get current k) x = Inr None"
  using assms
  by (auto simp: visit_desired_def emitted_desired_def Let_def
           split: if_splits sum.splits option.splits)

lemma visit_current_silent:
  "Get desired k \<noteq> VNil \<Longrightarrow> visit_current desired k x acc = Inr acc"
  by (simp add: visit_current_def)

lemma diff_empty:
  assumes "\<And>k x. (k, x) \<in> set desired \<Longrightarrow>
             Get current k \<noteq> VNil \<and> compare (Get current k) x = Inr None"
    and "\<And>k. k \<in> set (keys current) \<Longrightarrow> Get desired k \<noteq> VNil"
  shows "diff current desired = Inr []"
proof -
  have "Walk desired (visit_desired current) [] = Inr []"
    by (rule Walk_unchanged) (simp add: assms(1) visit_desired_silent)
  moreover have "Walk current (visit_current desired) [] = Inr []"
  proof (rule Walk_unchanged)
    fix k x assume "(k, x) \<in> set current"
    then have "k \<in> set (keys current)" by (force simp: keys_def)
    from assms(2) [OF this] show "visit_current desired k x [] = Inr []"
      by (rule visit_current_silent)
  qed
  ultimately show ?thesis by (simp add: diff_def)
qed

lemma map_fst_Add:
  "map fst (Add k x s) = (if k \<in> set (map fst s) then map fst s else map fst s @ [k])"
  by (induction s) (force split: if_splits)+

lemma keys_Add: "(k' \<in> set (keys (Add k x s))) = (k' = k \<or> k' \<in> set (keys s))"
  unfolding keys_def map_fst_Add by auto

lemma keys_Delete: "(k' \<in> set (keys (Delete k s))) = (k' \<noteq> k \<and> k' \<in> set (keys s))"
  by (induction s) (auto simp: keys_def Delete_def)

lemma keys_dispatch_no_add:
  "u_key u = k \<longrightarrow> u_state u = old \<Longrightarrow> k \<notin> set (keys s) \<Longrightarrow>
   k \<notin> set (keys (dispatch u s))"
  by (auto simp: dispatch_def keys_Add keys_Delete Update_def)

lemma keys_fold_dispatch_no_add:
  "\<forall>u \<in> set us. u_key u = k \<longrightarrow> u_state u = old \<Longrightarrow> k \<notin> set (keys s) \<Longrightarrow>
   k \<notin> set (keys (fold dispatch us s))"
proof (induction us arbitrary: s)
  case Nil
  then show ?case by simp
next
  case (Cons u us)
  from Cons.prems have "k \<notin> set (keys (dispatch u s))"
    by (simp add: keys_dispatch_no_add)
  moreover from Cons.prems have "\<forall>u \<in> set us. u_key u = k \<longrightarrow> u_state u = old" by simp
  ultimately have "k \<notin> set (keys (fold dispatch us (dispatch u s)))"
    by (rule Cons.IH [rotated])
  then show ?case by simp
qed

lemma keys_fold_dispatch_deleted:
  "\<forall>u \<in> set us. u_key u = k \<longrightarrow> u_state u = old \<Longrightarrow> \<exists>u \<in> set us. u_key u = k \<Longrightarrow>
   k \<notin> set (keys (fold dispatch us s))"
proof (induction us arbitrary: s)
  case Nil
  then show ?case by simp
next
  case (Cons u us)
  from Cons.prems(1) have rest: "\<forall>u \<in> set us. u_key u = k \<longrightarrow> u_state u = old" by simp
  show ?case
  proof (cases "u_key u = k")
    case True
    with Cons.prems(1) have "u_state u = old" by simp
    with True have "k \<notin> set (keys (dispatch u s))"
      by (simp add: dispatch_def keys_Delete)
    with rest have "k \<notin> set (keys (fold dispatch us (dispatch u s)))"
      by (rule keys_fold_dispatch_no_add)
    then show ?thesis by simp
  next
    case False
    with Cons.prems(2) have "\<exists>u \<in> set us. u_key u = k" by auto
    with rest have "k \<notin> set (keys (fold dispatch us (dispatch u s)))"
      by (rule Cons.IH)
    then show ?thesis by simp
  qed
qed

lemma Reconcile_Inr:
  "Reconcile current desired verbose = Inr (current', logged) \<Longrightarrow>
   \<exists>updates. diff current desired = Inr updates \<and> current' = fold dispatch updates current"
proof -
  assume "Reconcile current desired verbose = Inr (current', logged)"
  then obtain updates where d: "diff current desired = Inr updates"
    and f: "fix_updates current updates verbose = (current', logged)"
    by (auto simp: Reconcile_def split: sum.splits)
  from f have "fst (fix_updates current updates verbose) = current'" by simp
  then have "current' = fold dispatch updates current" by (simp add: fst_fix_updates)
  with d show ?thesis by blast
qed

lemma second_diff_empty:
  assumes wd: "well_formed desired"
    and self: "\<And>k x. (k, x) \<in> set desired \<Longrightarrow> compare x x = Inr None"
    and ret: "diff current desired = Inr updates"
  shows "diff (fold dispatch updates current) desired = Inr []"
proof (rule diff_empty)
  define P1 where "P1 = concat (map (emitted_desired current) desired)"
  define P2 where "P2 = concat (map (emitted_current desired) current)"
  have ups: "updates = P1 @ P2"
    unfolding P1_def P2_def using ret by (rule diff_Inr)
  from wd have ud: "distinct (keys desired)" and nd: "VNil \<notin> snd ` set desired"
    by (simp_all add: well_formed_def)
  {
    fix k x assume in_d: "(k, x) \<in> set desired"
    from Get_well_formed [OF wd in_d] have gx: "Get desired k = x" and xn: "x \<noteq> VNil"
      by simp_all
    have "filter (\<lambda>u. u_key u = k) P2 = []"
      unfolding P2_def using gx xn by (simp add: filter_key_emitted_current)
    moreover have "filter (\<lambda>u. u_key u = k) P1 = emitted_desired current (k, x)"
      unfolding P1_def using ud in_d by (rule filter_key_emitted_desired)
    ultimately have byk: "filter (\<lambda>u. u_key u = k) updates = emitted_desired current (k, x)"
      using ups by simp
    have g: "Get (fold dispatch updates current) k =
             Get (fold dispatch (emitted_desired current (k, x)) current) k"
      using Get_fold_dispatch_filter [of current k current updates] byk by simp
    from ret obtain us1 where "Walk desired (visit_desired current) [] = Inr us1"
      by (auto simp: diff_def split: sum.splits)
    from Walk_visit_desired_each [OF this in_d]
    obtain us' where v: "visit_desired current k x [] = Inr us'" ..
    from emitted_desired_cases [of current k x]
    show "Get (fold dispatch updates current) k \<noteq> VNil \<and>
          compare (Get (fold dispatch updates current) k) x = Inr None"
    proof (elim disjE exE conjE)
      assume e: "emitted_desired current (k, x) = []"
      from emitted_desired_empty [OF v e] g e show ?thesis by simp
    next
      fix w assume "emitted_desired current (k, x) =
                    [\<lparr>u_key = k, u_state = new, u_v = x, u_why = w\<rparr>]"
      with g have "Get (fold dispatch updates current) k = x"
        by (simp add: dispatch_def Get_Add)
      with xn self [OF in_d] show ?thesis by simp
    next
      fix w assume "emitted_desired current (k, x) =
                    [\<lparr>u_key = k, u_state = dirty, u_v = x, u_why = w\<rparr>]"
      with g have "Get (fold dispatch updates current) k = x"
        by (simp add: dispatch_def Get_Add Update_def)
      with xn self [OF in_d] show ?thesis by simp
    qed
  }
  {
    fix k assume in_c: "k \<in> set (keys (fold dispatch updates current))"
    show "Get desired k \<noteq> VNil"
    proof
      assume gn: "Get desired k = VNil"
      with nd have "k \<notin> set (keys desired)" by (simp add: Get_nil_iff)
      then have "filter (\<lambda>u. u_key u = k) P1 = []"
        unfolding P1_def by (rule filter_key_emitted_desired_other)
      then have p1: "\<forall>u \<in> set P1. u_key u \<noteq> k"
        by (simp add: filter_empty_conv)
      have p2: "\<forall>u \<in> set P2. u_state u = old"
        unfolding P2_def using emitted_current_state by auto
      from p1 p2 ups have dels: "\<forall>u \<in> set updates. u_key u = k \<longrightarrow> u_state u = old"
        by auto
      have "k \<notin> set (keys (fold dispatch updates current))"
      proof (cases "k \<in> set (keys current)")
        case True
        then obtain y where y: "(k, y) \<in> set current" by (auto simp: keys_def)
        let ?d = "\<lparr>u_key = k, u_state = old, u_v = VNil,
                   u_why = ''currentValue is with key '' @ k @ '' marked for deletion''\<rparr>"
        from gn have "emitted_current desired (k, y) = [?d]"
          by (simp add: emitted_current_eq)
        with y have "?d \<in> set P2" unfolding P2_def by force
        with ups have "\<exists>u \<in> set updates. u_key u = k" by force
        with dels show ?thesis by (rule keys_fold_dispatch_deleted)
      next
        case False
        with dels show ?thesis by (rule keys_fold_dispatch_no_add)
      qed
      with in_c show False by simp
    qed
  }
qed

section \<open>When diff and Reconcile return\<close>

lemma compare_checksummed:
  "Checksumed a = Some s \<Longrightarrow> Checksumed b = Some t \<Longrightarrow>
   compare a b =
     (if elems s = elems t then Inr None
      else if cap s < 5 then Inl (SliceBoundsOutOfRange 5 (cap s))
      else if cap t < 5 then Inl (SliceBoundsOutOfRange 5 (cap t))
      else Inr (Some (Errorf (fmt_v a @ '' sum='' @ fmt_x (take 5 (elems s @ spare s)) @
                              '' != '' @
                              fmt_v b @ '' sum='' @ fmt_x (take 5 (elems t @ spare t))))))"
  by (simp add: compare_def bytes_Compare_ne_def slice_to_def)

lemma compare_returns: "sliceable a \<Longrightarrow> sliceable b \<Longrightarrow> \<exists>r. compare a b = Inr r"
  by (auto simp: compare_def sliceable_def slice_to_def split: option.splits)

lemma Get_sliceable: "\<forall>x \<in> snd ` set s. sliceable x \<Longrightarrow> sliceable (Get s k)"
proof (cases "map_of s k")
  case None
  then show ?thesis by (simp add: Get_def sliceable_def)
next
  case (Some y)
  assume a: "\<forall>x \<in> snd ` set s. sliceable x"
  from Some have "(k, y) \<in> set s" by (rule map_of_SomeD)
  then have "y \<in> snd ` set s" by force
  with a have "sliceable y" by blast
  with Some show ?thesis by (simp add: Get_def)
qed

lemma visit_desired_returns:
  "sliceable (Get current k) \<Longrightarrow> sliceable x \<Longrightarrow> \<exists>us. visit_desired current k x acc = Inr us"
  using compare_returns [of "Get current k" x]
  by (auto simp: visit_desired_def Let_def split: option.splits)

lemma Walk_returns:
  "(\<And>k x acc. (k, x) \<in> set s \<Longrightarrow> \<exists>acc'. f k x acc = Inr acc') \<Longrightarrow> \<exists>r. Walk s f acc = Inr r"
proof (induction s arbitrary: acc)
  case Nil
  then show ?case by simp
next
  case (Cons e s)
  obtain k x where e: "e = (k, x)" by (cases e)
  from Cons.prems [of k x acc] e obtain acc' where "f k x acc = Inr acc'" by auto
  moreover have "\<exists>r. Walk s f acc' = Inr r"
    by (rule Cons.IH) (simp add: Cons.prems)
  ultimately show ?case by (simp add: e)
qed

lemma diff_returns:
  assumes "\<forall>x \<in> snd ` set current. sliceable x" and "\<forall>x \<in> snd ` set desired. sliceable x"
  shows "\<exists>updates. diff current desired = Inr updates"
proof -
  have "\<exists>r. Walk desired (visit_desired current) [] = Inr r"
  proof (rule Walk_returns)
    fix k x acc assume "(k, x) \<in> set desired"
    then have "x \<in> snd ` set desired" by force
    with assms(2) have "sliceable x" by blast
    with Get_sliceable [OF assms(1)] show "\<exists>acc'. visit_desired current k x acc = Inr acc'"
      by (rule visit_desired_returns)
  qed
  then show ?thesis by (auto simp: diff_def Walk_visit_current)
qed

lemma Reconcile_returns:
  assumes "\<forall>x \<in> snd ` set current. sliceable x" and "\<forall>x \<in> snd ` set desired. sliceable x"
  shows "\<exists>r. Reconcile current desired verbose = Inr r"
  using diff_returns [OF assms] by (auto simp: Reconcile_def)

lemma diff_states:
  "diff current desired = Inr updates \<Longrightarrow>
   \<forall>u \<in> set updates. u_state u = new \<or> u_state u = old \<or> u_state u = dirty"
proof -
  assume "diff current desired = Inr updates"
  then have "updates = concat (map (emitted_desired current) desired) @
                       concat (map (emitted_current desired) current)"
    by (rule diff_Inr)
  then show ?thesis
    using emitted_desired_state emitted_current_state by fastforce
qed

section \<open>The first match of \<open>validMessage\<close>\<close>

lemma first_thread_Cat:
  "first_thread r1 t = Some t1 \<Longrightarrow> first_thread r2 t1 = Some t2 \<Longrightarrow>
   first_thread (Cat r1 r2) t = Some t2"
  by (auto simp: first_thread_def split: list.splits)

lemma first_thread_Cap:
  "first_thread r (s, caps) = Some (s', caps') \<Longrightarrow>
   first_thread (Cap i r) (s, caps) = Some (s', (i, take (length s - length s') s) # caps')"
  by (auto simp: first_thread_def split: list.splits)

lemma first_thread_Quest: "first_thread r t = Some t' \<Longrightarrow> first_thread (Quest r) t = Some t'"
  by (auto simp: first_thread_def split: list.splits)

lemma first_thread_Quest_skip: "run r t = [] \<Longrightarrow> first_thread (Quest r) t = Some t"
  by (simp add: first_thread_def)

lemma first_thread_Lit: "first_thread (Atom (Lit c)) (c # s, caps) = Some (s, caps)"
  by (simp add: first_thread_def)

lemma star_alts_class:
  assumes "\<And>c s. atom_width a (c # s) = (if P c then Some 1 else None)"
    and "list_all P p" and "rest = [] \<or> \<not> P (hd rest)"
  shows "\<exists>ys. star_alts a (p @ rest) = rest # ys"
  using assms(2)
proof (induction p)
  case Nil
  from assms(1,3) have "atom_width a rest = None" by (cases rest) auto
  then show ?case by (simp add: star_alts.simps [of a rest])
next
  case (Cons c p)
  then obtain ys where "star_alts a (p @ rest) = rest # ys" by auto
  moreover from Cons.prems assms(1) have "atom_width a ((c # p) @ rest) = Some 1" by simp
  ultimately show ?case by (simp add: star_alts.simps [of a "c # p @ rest"])
qed

lemma first_thread_Plus_class:
  assumes "\<And>c s. atom_width a (c # s) = (if P c then Some 1 else None)"
    and "p \<noteq> []" and "list_all P p" and "rest = [] \<or> \<not> P (hd rest)"
  shows "first_thread (Plus a) (p @ rest, caps) = Some (rest, caps)"
proof -
  from assms(2) obtain c q where p: "p = c # q" by (cases p) auto
  with assms(3) have "P c" and "list_all P q" by simp_all
  from star_alts_class [of a P q rest, OF assms(1) this(2) assms(4)]
  obtain ys where "star_alts a (q @ rest) = rest # ys" by blast
  moreover from \<open>P c\<close> assms(1) have "atom_width a (p @ rest) = Some 1" by (simp add: p)
  ultimately show ?thesis by (simp add: first_thread_def plus_alts_def p)
qed

lemma first_thread_Plus_Alnum:
  "p \<noteq> [] \<Longrightarrow> list_all is_alnum p \<Longrightarrow> rest = [] \<or> \<not> is_alnum (hd rest) \<Longrightarrow>
   first_thread (Plus Alnum) (p @ rest, caps) = Some (rest, caps)"
  by (rule first_thread_Plus_class [of Alnum is_alnum]) simp_all

lemma first_thread_Plus_Digit:
  "p \<noteq> [] \<Longrightarrow> list_all is_digit p \<Longrightarrow> rest = [] \<or> \<not> is_digit (hd rest) \<Longrightarrow>
   first_thread (Plus Digit) (p @ rest, caps) = Some (rest, caps)"
  by (rule first_thread_Plus_class [of Digit is_digit]) simp_all

lemma byte_in_newline [simp]: "0x0B \<le> lo \<Longrightarrow> \<not> byte_in (CHR 0x0A) lo hi"
  by (simp add: byte_in_def)

lemma rune_width_pos: "s \<noteq> [] \<Longrightarrow> 0 < rune_width s"
  by (cases s) (auto split: list.splits)

lemma rune_width_line:
  assumes "msg \<noteq> []" and "rest = [] \<or> hd rest = CHR 0x0A"
  shows "rune_width (msg @ rest) \<le> length msg"
proof -
  from assms(1) obtain c m where msg: "msg = c # m" by (cases msg) auto
  from assms(2) consider "rest = []" | r where "rest = CHR 0x0A # r" by (cases rest) auto
  then show ?thesis
  proof cases
    case 1
    then show ?thesis by (auto simp: msg split: list.splits)
  next
    case 2
    then show ?thesis
      by (cases m; cases "tl m"; cases "tl (tl m)") (auto simp: msg split: list.splits)
  qed
qed

lemma star_alts_AnyChar:
  "CHR 0x0A \<notin> set msg \<Longrightarrow> rest = [] \<or> hd rest = CHR 0x0A \<Longrightarrow>
   \<exists>ys. star_alts AnyChar (msg @ rest) = rest # ys"
proof (induction "length msg" arbitrary: msg rule: less_induct)
  case less
  show ?case
  proof (cases msg)
    case Nil
    from less.prems(2) have "atom_width AnyChar rest = None" by (cases rest) auto
    with Nil show ?thesis by (simp add: star_alts.simps [of AnyChar rest])
  next
    case (Cons c m)
    let ?w = "rune_width (msg @ rest)"
    from Cons less.prems(1) have c: "c \<noteq> CHR 0x0A" by auto
    with Cons have aw: "atom_width AnyChar (msg @ rest) = Some ?w" by simp
    from Cons have "msg @ rest \<noteq> []" by simp
    then have pos: "0 < ?w" by (rule rune_width_pos)
    from Cons have "msg \<noteq> []" by simp
    then have le: "?w \<le> length msg"
      using less.prems(2) by (rule rune_width_line)
    then have dr: "drop ?w (msg @ rest) = drop ?w msg @ rest" by simp
    from pos Cons have "length (drop ?w msg) < length msg" by simp
    moreover from less.prems(1) have "CHR 0x0A \<notin> set (drop ?w msg)"
      by (auto dest: in_set_dropD)
    ultimately obtain ys where "star_alts AnyChar (drop ?w msg @ rest) = rest # ys"
      using less.hyps less.prems(2) by blast
    with aw pos dr Cons show ?thesis
      by (subst star_alts.simps) simp
  qed
qed

lemma first_thread_Star_AnyChar:
  "CHR 0x0A \<notin> set msg \<Longrightarrow> rest = [] \<or> hd rest = CHR 0x0A \<Longrightarrow>
   first_thread (Star AnyChar) (msg @ rest, caps) = Some (rest, caps)"
  using star_alts_AnyChar [of msg rest] by (auto simp: first_thread_def)

lemma search_first_thread:
  "first_thread r (s, []) = Some (s', caps) \<Longrightarrow> search r s = Some (s, s', caps)"
  by (cases s) (auto simp: first_thread_def split: list.splits)

lemma not_alnum_punct: "\<not> is_alnum (CHR ''.'')" "\<not> is_alnum (CHR '':'')" "\<not> is_digit (CHR '':'')"
  "\<not> is_digit (CHR '' '')"
  by (simp_all add: is_alnum_def is_digit_def byte_in_def)

lemma first_thread_validMessage:
  assumes "fname \<noteq> []" and "list_all is_alnum fname"
    and "ext \<noteq> []" and "list_all is_alnum ext"
    and "line \<noteq> []" and "list_all is_digit line"
    and "CHR 0x0A \<notin> set msg" and "rest = [] \<or> hd rest = CHR 0x0A"
  shows "first_thread validMessage
           (fname @ ''.'' @ ext @ '':'' @ line @ '': '' @ msg @ rest, []) =
         Some (rest, [(4, msg), (2, line), (1, fname @ ''.'' @ ext)])"
proof -
  let ?s6 = "msg @ rest"
  let ?s5 = "CHR '' '' # ?s6"
  let ?s4 = "CHR '':'' # ?s5"
  let ?s3 = "line @ ?s4"
  let ?s2 = "CHR '':'' # ?s3"
  let ?s1 = "ext @ ?s2"
  let ?s0 = "fname @ CHR ''.'' # ?s1"
  let ?c1 = "[(1, fname @ ''.'' @ ext)]"
  let ?c2 = "(2, line) # ?c1"
  have a1: "first_thread (Plus Alnum) (?s0, []) = Some (CHR ''.'' # ?s1, [])"
    using assms(1,2) by (intro first_thread_Plus_Alnum) (simp_all add: not_alnum_punct)
  have a2: "first_thread (Atom AnyChar) (CHR ''.'' # ?s1, []) = Some (?s1, [])"
    by (simp add: first_thread_def byte_in_def)
  have a3: "first_thread (Plus Alnum) (?s1, []) = Some (?s2, [])"
    using assms(3,4) by (intro first_thread_Plus_Alnum) (simp_all add: not_alnum_punct)
  have "first_thread (Cat (Plus Alnum) (Cat (Atom AnyChar) (Plus Alnum))) (?s0, []) =
        Some (?s2, [])"
    by (rule first_thread_Cat [OF a1 first_thread_Cat [OF a2 a3]])
  from first_thread_Cap [OF this, of 1]
  have g1: "first_thread (Cap 1 (Cat (Plus Alnum) (Cat (Atom AnyChar) (Plus Alnum)))) (?s0, []) =
        Some (?s2, ?c1)"
    by simp
  have colon1: "first_thread (Atom (Lit (CHR '':''))) (?s2, ?c1) = Some (?s3, ?c1)"
    by (rule first_thread_Lit)
  have "first_thread (Plus Digit) (?s3, ?c1) = Some (?s4, ?c1)"
    using assms(5,6) by (intro first_thread_Plus_Digit) (simp_all add: not_alnum_punct)
  from first_thread_Cap [OF this, of 2]
  have g2: "first_thread (Cap 2 (Plus Digit)) (?s3, ?c1) = Some (?s4, ?c2)"
    by simp
  have colon2: "first_thread (Atom (Lit (CHR '':''))) (?s4, ?c2) = Some (?s5, ?c2)"
    by (rule first_thread_Lit)
  have "run (Cap 3 (Plus Digit)) (?s5, ?c2) = []"
    by (simp add: plus_alts_def not_alnum_punct)
  then have g3: "first_thread (Quest (Cap 3 (Plus Digit))) (?s5, ?c2) = Some (?s5, ?c2)"
    by (rule first_thread_Quest_skip)
  have "run (Atom (Lit (CHR '':''))) (?s5, ?c2) = []"
    by simp
  then have colon3: "first_thread (Quest (Atom (Lit (CHR '':'')))) (?s5, ?c2) = Some (?s5, ?c2)"
    by (rule first_thread_Quest_skip)
  have space: "first_thread (Atom (Lit (CHR '' ''))) (?s5, ?c2) = Some (?s6, ?c2)"
    by (rule first_thread_Lit)
  have "first_thread (Star AnyChar) (?s6, ?c2) = Some (rest, ?c2)"
    using assms(7,8) by (rule first_thread_Star_AnyChar)
  from first_thread_Cap [OF this, of 4]
  have g4: "first_thread (Cap 4 (Star AnyChar)) (?s6, ?c2) = Some (rest, (4, msg) # ?c2)"
    by simp
  have "first_thread validMessage (?s0, []) = Some (rest, (4, msg) # ?c2)"
    unfolding validMessage_def
    by (intro first_thread_Cat [OF g1] first_thread_Cat [OF colon1] first_thread_Cat [OF g2]
        first_thread_Cat [OF colon2] first_thread_Cat [OF g3] first_thread_Cat [OF colon3]
        first_thread_Cat [OF space] g4)
  then show ?thesis by simp
qed

lemma NumSubexp_validMessage: "NumSubexp validMessage = 4"
  by (simp add: validMessage_def)

lemma FindAllStringSubmatch_validMessage_Nil:
  "FindAllStringSubmatch validMessage prev [] = []"
  by (subst FindAllStringSubmatch.simps) (simp add: validMessage_def plus_alts_def)

lemma take_consumed: "take (length (p @ r) - length r) (p @ r) = p"
  by simp

lemma Atoi_Nil: "Atoi [] = None"
  by (simp add: Atoi_def)

section \<open>Matches stay within a line\<close>

lemma is_alnum_not_newline: "is_alnum c \<Longrightarrow> c \<noteq> CHR 0x0A"
  by (auto simp: is_alnum_def byte_in_def)

lemma is_digit_not_newline: "is_digit c \<Longrightarrow> c \<noteq> CHR 0x0A"
  by (auto simp: is_digit_def byte_in_def)

lemma atom_width_in_line:
  assumes "a \<noteq> Lit (CHR 0x0A)" and "CHR 0x0A \<notin> set u" and "v = [] \<or> hd v = CHR 0x0A"
    and "atom_width a (u @ v) = Some w"
  shows "0 < w \<and> w \<le> length u"
proof (cases u)
  case Nil
  with assms(3,4) have "v \<noteq> []" by auto
  then obtain c v' where v: "v = c # v'" by (cases v) auto
  with assms(3) have "c = CHR 0x0A" by simp
  with assms(1,4) Nil v show ?thesis
    by (cases a) (auto dest: is_alnum_not_newline is_digit_not_newline split: if_splits)
next
  case (Cons c u')
  show ?thesis
  proof (cases a)
    case AnyChar
    from Cons have "u \<noteq> []" by simp
    then have "rune_width (u @ v) \<le> length u" using assms(3) by (rule rune_width_line)
    moreover from Cons have "u @ v \<noteq> []" by simp
    then have "0 < rune_width (u @ v)" by (rule rune_width_pos)
    moreover from assms(4) AnyChar Cons have "w = rune_width (u @ v)"
      by (simp del: rune_width.simps split: if_splits)
    ultimately show ?thesis by simp
  qed (use assms(4) Cons in \<open>auto split: if_splits\<close>)
qed

lemma star_alts_in_line:
  assumes "a \<noteq> Lit (CHR 0x0A)" and "v = [] \<or> hd v = CHR 0x0A"
  shows "CHR 0x0A \<notin> set u \<Longrightarrow> s' \<in> set (star_alts a (u @ v)) \<Longrightarrow> \<exists>k. s' = drop k u @ v"
proof (induction "length u" arbitrary: u rule: less_induct)
  case less
  show ?case
  proof (cases "atom_width a (u @ v)")
    case None
    with less.prems(2) have "s' = u @ v" by (simp add: star_alts.simps [of a "u @ v"])
    then have "s' = drop 0 u @ v" by simp
    then show ?thesis by blast
  next
    case (Some w)
    from atom_width_in_line [OF assms(1) less.prems(1) assms(2) Some]
    have w: "0 < w" "w \<le> length u" by simp_all
    then have dr: "drop w (u @ v) = drop w u @ v" by simp
    from less.prems(2) Some dr
    have "s' = u @ v \<or> s' \<in> set (star_alts a (drop w u @ v))"
      by (auto simp: star_alts.simps [of a "u @ v"] split: if_splits)
    then show ?thesis
    proof
      assume "s' = u @ v"
      then have "s' = drop 0 u @ v" by simp
      then show ?thesis by blast
    next
      assume in_rest: "s' \<in> set (star_alts a (drop w u @ v))"
      from w have "length (drop w u) < length u" by simp
      moreover from less.prems(1) have "CHR 0x0A \<notin> set (drop w u)"
        by (auto dest: in_set_dropD)
      ultimately obtain k where "s' = drop k (drop w u) @ v"
        using less.hyps in_rest by blast
      then have "s' = drop (k + w) u @ v" by simp
      then show ?thesis by blast
    qed
  qed
qed

lemma run_in_line:
  assumes "v = [] \<or> hd v = CHR 0x0A"
  shows "newline_free r \<Longrightarrow> CHR 0x0A \<notin> set u \<Longrightarrow> (s', caps') \<in> set (run r (u @ v, caps)) \<Longrightarrow>
         \<exists>k. s' = drop k u @ v"
proof (induction r arbitrary: u caps s' caps')
  case (Atom a)
  show ?case
  proof (cases "atom_width a (u @ v)")
    case None
    with Atom.prems(3) show ?thesis by simp
  next
    case (Some w)
    with Atom.prems(3) have s': "s' = drop w (u @ v)" by (simp del: drop_append)
    from Atom.prems(1) have "a \<noteq> Lit (CHR 0x0A)" by simp
    from atom_width_in_line [OF this Atom.prems(2) assms Some] s'
    have "s' = drop w u @ v" by simp
    then show ?thesis by blast
  qed
next
  case (Plus a)
  show ?case
  proof (cases "atom_width a (u @ v)")
    case None
    with Plus.prems(3) show ?thesis by (simp add: plus_alts_def)
  next
    case (Some w)
    with Plus.prems(3) have in_alts: "s' \<in> set (star_alts a (drop w (u @ v)))"
      by (auto simp: plus_alts_def simp del: drop_append)
    from Plus.prems(1) have a: "a \<noteq> Lit (CHR 0x0A)" by simp
    from atom_width_in_line [OF a Plus.prems(2) assms Some]
    have "drop w (u @ v) = drop w u @ v" by simp
    with in_alts have in_alts': "s' \<in> set (star_alts a (drop w u @ v))" by simp
    from Plus.prems(2) have "CHR 0x0A \<notin> set (drop w u)"
      by (auto dest: in_set_dropD)
    from star_alts_in_line [OF a assms this in_alts']
    obtain k where "s' = drop k (drop w u) @ v" by blast
    then have "s' = drop (k + w) u @ v" by simp
    then show ?thesis by blast
  qed
next
  case (Star a)
  then have "s' \<in> set (star_alts a (u @ v))" by auto
  moreover from Star.prems(1) have "a \<noteq> Lit (CHR 0x0A)" by simp
  ultimately show ?case using star_alts_in_line [OF _ assms Star.prems(2)] by blast
next
  case (Quest r)
  from Quest.prems(3) have "(s', caps') \<in> set (run r (u @ v, caps)) \<or> s' = u @ v" by auto
  then show ?case
  proof
    assume "(s', caps') \<in> set (run r (u @ v, caps))"
    with Quest.IH Quest.prems(1,2) show ?thesis by simp
  next
    assume "s' = u @ v"
    then have "s' = drop 0 u @ v" by simp
    then show ?thesis by blast
  qed
next
  case (Cat r1 r2)
  from Cat.prems(3) obtain s1 caps1 where
    t1: "(s1, caps1) \<in> set (run r1 (u @ v, caps))" and
    t2: "(s', caps') \<in> set (run r2 (s1, caps1))"
    by auto
  from Cat.prems(1) have n1: "newline_free r1" and n2: "newline_free r2" by simp_all
  from Cat.IH(1) [OF n1 Cat.prems(2) t1] obtain k1 where s1: "s1 = drop k1 u @ v" by blast
  from Cat.prems(2) have "CHR 0x0A \<notin> set (drop k1 u)" by (auto dest: in_set_dropD)
  from Cat.IH(2) [OF n2 this] t2 s1 obtain k2 where "s' = drop k2 (drop k1 u) @ v" by blast
  then have "s' = drop (k2 + k1) u @ v" by simp
  then show ?case by blast
next
  case (Cap i r)
  from Cap.prems(3) obtain c where "(s', c) \<in> set (run r (u @ v, caps))" by auto
  with Cap.IH Cap.prems(1,2) show ?case by simp
qed

lemma newline_free_validMessage: "newline_free validMessage"
  by (simp add: validMessage_def)

lemma dropWhile_last_newline:
  assumes "p \<noteq> []" and "last p = CHR 0x0A"
  shows "dropWhile (\<lambda>c. c \<noteq> CHR 0x0A) p \<noteq> [] \<and>
         hd (dropWhile (\<lambda>c. c \<noteq> CHR 0x0A) p) = CHR 0x0A \<and>
         last (dropWhile (\<lambda>c. c \<noteq> CHR 0x0A) p) = CHR 0x0A"
proof -
  from assms have in_p: "CHR 0x0A \<in> set p" by (metis last_in_set)
  then have ne: "dropWhile (\<lambda>c. c \<noteq> CHR 0x0A) p \<noteq> []" by (simp add: dropWhile_eq_Nil_conv)
  then have "hd (dropWhile (\<lambda>c. c \<noteq> CHR 0x0A) p) = CHR 0x0A"
    using hd_dropWhile [of "\<lambda>c. c \<noteq> CHR 0x0A" p] by simp
  moreover have "last (dropWhile (\<lambda>c. c \<noteq> CHR 0x0A) p) = last p"
    using ne by (metis takeWhile_dropWhile_id last_appendR)
  ultimately show ?thesis using ne assms(2) by simp
qed

lemma run_before:
  assumes "newline_free r" and "p \<noteq> []" and "last p = CHR 0x0A"
    and "(s', caps') \<in> set (run r (p @ X, caps))"
  shows "\<exists>q. s' = q @ X \<and> q \<noteq> [] \<and> last q = CHR 0x0A \<and> length q \<le> length p"
proof -
  let ?u = "takeWhile (\<lambda>c. c \<noteq> CHR 0x0A) p"
  let ?d = "dropWhile (\<lambda>c. c \<noteq> CHR 0x0A) p"
  from dropWhile_last_newline [OF assms(2,3)]
  have d: "?d \<noteq> []" "hd ?d = CHR 0x0A" "last ?d = CHR 0x0A" by simp_all
  then have v: "?d @ X = [] \<or> hd (?d @ X) = CHR 0x0A" by simp
  have u: "CHR 0x0A \<notin> set ?u" by (auto dest: set_takeWhileD)
  have "p @ X = ?u @ (?d @ X)" by simp
  with assms(4) have "(s', caps') \<in> set (run r (?u @ (?d @ X), caps))" by simp
  from run_in_line [OF v assms(1) u this] obtain k where "s' = drop k ?u @ ?d @ X" by blast
  then have "s' = (drop k ?u @ ?d) @ X" by simp
  moreover have "drop k ?u @ ?d \<noteq> []" using d(1) by simp
  moreover have "last (drop k ?u @ ?d) = CHR 0x0A" using d(1,3) by simp
  moreover have "length (drop k ?u @ ?d) \<le> length p"
  proof -
    have "length (drop k ?u @ ?d) \<le> length ?u + length ?d" by simp
    also have "\<dots> = length (?u @ ?d)" by (simp only: length_append)
    also have "\<dots> = length p" by (simp only: takeWhile_dropWhile_id)
    finally show ?thesis .
  qed
  ultimately show ?thesis by blast
qed

lemma search_before:
  assumes "newline_free r"
  shows "p \<noteq> [] \<Longrightarrow> last p = CHR 0x0A \<Longrightarrow>
         search r (p @ X) = search r X \<or>
         (\<exists>t q caps. search r (p @ X) = Some (t, q @ X, caps) \<and> q \<noteq> [] \<and>
                      last q = CHR 0x0A \<and> length q \<le> length p)"
proof (induction p)
  case Nil
  then show ?case by simp
next
  case (Cons c p)
  show ?case
  proof (cases "run r ((c # p) @ X, [])")
    case Nil
    then have step: "search r ((c # p) @ X) = search r (p @ X)" by simp
    show ?thesis
    proof (cases "p = []")
      case True
      with step show ?thesis by simp
    next
      case False
      with Cons.prems have "last p = CHR 0x0A" by simp
      from Cons.IH [OF False this] step show ?thesis by auto
    qed
  next
    case (Cons th ths)
    obtain s' caps where th: "th = (s', caps)" by (cases th)
    with Cons have found: "search r ((c # p) @ X) = Some ((c # p) @ X, s', caps)" by simp
    from Cons th have "(s', caps) \<in> set (run r ((c # p) @ X, []))" by simp
    from run_before [OF assms _ Cons.prems(2) this]
    obtain q where "s' = q @ X" "q \<noteq> []" "last q = CHR 0x0A" "length q \<le> length (c # p)"
      by auto
    with found show ?thesis by blast
  qed
qed

lemma rune_width_before:
  assumes "p \<noteq> []" and "last p = CHR 0x0A"
  shows "rune_width (p @ X) \<le> length p"
proof -
  let ?u = "takeWhile (\<lambda>c. c \<noteq> CHR 0x0A) p"
  let ?d = "dropWhile (\<lambda>c. c \<noteq> CHR 0x0A) p"
  from dropWhile_last_newline [OF assms]
  have d: "?d \<noteq> []" "hd ?d = CHR 0x0A" by simp_all
  show ?thesis
  proof (cases "?u = []")
    case True
    then have "p = ?d" by (metis append_Nil takeWhile_dropWhile_id)
    with d obtain p' where "p = CHR 0x0A # p'" by (cases p) auto
    then show ?thesis by (simp add: byte_in_def)
  next
    case False
    from d have "?d @ X = [] \<or> hd (?d @ X) = CHR 0x0A" by simp
    with False have "rune_width (?u @ (?d @ X)) \<le> length ?u" by (rule rune_width_line)
    moreover have "?u @ (?d @ X) = p @ X" by simp
    moreover have "length ?u \<le> length p" by (rule length_takeWhile_le)
    ultimately show ?thesis by (simp del: rune_width.simps)
  qed
qed

lemma FindAllStringSubmatch_before:
  assumes nf: "newline_free r"
    and here: "search r X = Some (X, rest, caps)"
    and shorter: "length rest < length X"
  shows "p = [] \<or> last p = CHR 0x0A \<Longrightarrow>
         \<exists>pre. FindAllStringSubmatch r prev (p @ X) =
                 pre @ submatches (NumSubexp r) X rest caps # FindAllStringSubmatch r True rest \<and>
               (p = [] \<longrightarrow> pre = [])"
proof (induction "length p" arbitrary: p prev rule: less_induct)
  case less
  let ?sub = "submatches (NumSubexp r) X rest caps"
  let ?tail = "FindAllStringSubmatch r True rest"
  have at_X: "FindAllStringSubmatch r prev' X = ?sub # ?tail" for prev'
    by (subst FindAllStringSubmatch.simps) (simp add: here shorter)
  show ?case
  proof (cases "p = []")
    case True
    with at_X [of prev] show ?thesis by simp
  next
    case False
    with less.prems have lp: "last p = CHR 0x0A" by simp
    from search_before [OF nf False lp, of X]
    show ?thesis
    proof (elim disjE exE conjE)
      assume "search r (p @ X) = search r X"
      with here have se: "search r (p @ X) = Some (X, rest, caps)" by simp
      from shorter have "length rest < length (p @ X)" by simp
      with se have "FindAllStringSubmatch r prev (p @ X) = ?sub # ?tail"
        by (subst FindAllStringSubmatch.simps) simp
      with False show ?thesis by simp
    next
      fix t q caps'
      assume se: "search r (p @ X) = Some (t, q @ X, caps')"
        and q: "q \<noteq> []" "last q = CHR 0x0A" "length q \<le> length p"
      show ?thesis
      proof (cases "length q < length p")
        case True
        from less.hyps [OF True, of True] q(2)
        obtain pre where "FindAllStringSubmatch r True (q @ X) = pre @ ?sub # ?tail" by blast
        moreover from True se
        have "FindAllStringSubmatch r prev (p @ X) =
              submatches (NumSubexp r) t (q @ X) caps' # FindAllStringSubmatch r True (q @ X)"
          by (subst FindAllStringSubmatch.simps) simp
        ultimately have "FindAllStringSubmatch r prev (p @ X) =
              (submatches (NumSubexp r) t (q @ X) caps' # pre) @ ?sub # ?tail"
          by simp
        with False show ?thesis by blast
      next
        case no_progress: False
        let ?w = "rune_width (p @ X)"
        let ?p' = "drop ?w p"
        from False have "p @ X \<noteq> []" by simp
        then have pos: "0 < ?w" by (rule rune_width_pos)
        from rune_width_before [OF False lp] have le: "?w \<le> length p" .
        then have dr: "drop ?w (p @ X) = ?p' @ X" by simp
        from pos False have len: "length ?p' < length p" by simp
        have "?p' = [] \<or> last ?p' = CHR 0x0A" using lp by (cases "?p' = []") simp_all
        from less.hyps [OF len this, of False]
        obtain pre where pre: "FindAllStringSubmatch r False (?p' @ X) = pre @ ?sub # ?tail"
          by blast
        from no_progress se False
        have "FindAllStringSubmatch r prev (p @ X) =
              (if prev then [] else [submatches (NumSubexp r) t (q @ X) caps']) @
              FindAllStringSubmatch r False (drop ?w (p @ X))"
          by (subst FindAllStringSubmatch.simps) (simp del: rune_width.simps drop_append)
        with pre dr have "FindAllStringSubmatch r prev (p @ X) =
              ((if prev then [] else [submatches (NumSubexp r) t (q @ X) caps']) @ pre) @
              ?sub # ?tail"
          by (simp del: rune_width.simps drop_append)
        with False show ?thesis by blast
      qed
    qed
  qed
qed

section \<open>The scenarios of the specification, run on the model\<close>

lemma scenario_update_structural:
  "Reconcile [(''k'', VStr ''old'')] [(''k'', VStr ''new'')] True =
     Inr ([(''k'', VStr ''new'')],
          [''key:k state:Update'' @ [CHR 0x0A, CHR 0x09] @
           ''why:reflect.Deepequal mismatch'' @ [CHR 0x0A] @ '' ''])"
  by (simp add: Reconcile_def diff_def visit_desired_def visit_current_def Get_def compare_def
      DeepEqual_def dispatch_def Update_def trace_line_def state_String_def)

lemma scenario_unchanged:
  "Reconcile [(''m'', VInt 5)] [(''m'', VInt 5)] True = Inr ([(''m'', VInt 5)], [])"
  by (simp add: Reconcile_def diff_def visit_desired_def visit_current_def Get_def compare_def
      DeepEqual_def)

lemma scenario_update_checksums:
  "diff [(''k'', VSummed ''blob1'' (Bytes [0x48, 0x31, 0, 0, 0, 0x01] []))]
        [(''k'', VSummed ''blob2'' (Bytes [0x48, 0x32, 0, 0, 0, 0x02] []))] =
     Inr [\<lparr>u_key = ''k'', u_state = dirty,
            u_v = VSummed ''blob2'' (Bytes [0x48, 0x32, 0, 0, 0, 0x02] []),
            u_why = ''blob1 sum=4831000000 != blob2 sum=4832000000''\<rparr>]"
  by (simp add: diff_def visit_desired_def visit_current_def Get_def compare_def
      bytes_Compare_ne_def slice_to_def cap_def fmt_x_def fmt_x_byte_def hexdigit_def)

section \<open>Claims about diff and fix\<close>

text \<open>
  \<open>diff\<close> panics when \<open>compare\<close> does, so the claims about the action list are stated
  for the list that \<open>diff\<close> returns; \<open>diff_returns\<close> above says that it returns
  whenever every checksum can be sliced to five bytes. A store is the list of its
  entries in walk order, and the keys of a store are unique.
\<close>

text \<open>
  Claim C1. For every key \<open>k\<close> that \<open>desired\<close> holds (with unique keys) and for which
  \<open>Get current k\<close> reports absence, the action list returned by \<open>diff current desired\<close>
  contains exactly one Create action for \<open>k\<close>, which carries the value of \<open>desired\<close>, and
  after \<open>fix\<close> has applied the list, \<open>Get current k\<close> is that value.
\<close>

theorem create_for_missing_key:
  assumes uniq: "distinct (keys desired)"
    and present: "(k, x) \<in> set desired"
    and absent: "Get current k = VNil"
    and ret: "diff current desired = Inr updates"
  shows "filter (\<lambda>u. u_key u = k \<and> u_state u = new) updates =
           [\<lparr>u_key = k, u_state = new, u_v = x,
             u_why = ''current state doesn'' @ [CHR 0x27] @ ''t have '' @ k @
                     '' doesn'' @ [CHR 0x27] @ ''t exist''\<rparr>] \<and>
         Get (fst (fix_updates current updates verbose)) k = x"
proof -
  let ?c = "\<lparr>u_key = k, u_state = new, u_v = x,
             u_why = ''current state doesn'' @ [CHR 0x27] @ ''t have '' @ k @
                     '' doesn'' @ [CHR 0x27] @ ''t exist''\<rparr>"
  let ?P1 = "concat (map (emitted_desired current) desired)"
  let ?P2 = "concat (map (emitted_current desired) current)"
  let ?dels = "filter (\<lambda>u. u_key u = k) ?P2"
  have ups: "updates = ?P1 @ ?P2" using ret by (rule diff_Inr)
  have p1: "filter (\<lambda>u. u_key u = k) ?P1 = [?c]"
    using filter_key_emitted_desired [OF uniq present] absent
    by (simp add: emitted_desired_absent)
  have dels: "\<forall>u \<in> set ?dels. u_key u = k \<and> u_state u = old"
    by (auto simp: filter_key_emitted_current)
  have byk: "filter (\<lambda>u. u_key u = k) updates = ?c # ?dels"
    using ups p1 by simp
  have "filter (\<lambda>u. u_key u = k \<and> u_state u = new) updates =
        filter (\<lambda>u. u_state u = new) (filter (\<lambda>u. u_key u = k) updates)"
    by (simp add: conj_commute)
  also have "\<dots> = ?c # filter (\<lambda>u. u_state u = new) ?dels"
    by (simp only: byk) simp
  also have "filter (\<lambda>u. u_state u = new) ?dels = []"
    using dels by (auto simp: filter_empty_conv)
  finally have one: "filter (\<lambda>u. u_key u = k \<and> u_state u = new) updates = [?c]" .
  have dx: "Get desired k = x"
    using uniq present by (simp add: Get_in keys_def)
  have "Get (fold dispatch updates current) k = Get (fold dispatch (?c # ?dels) current) k"
    using Get_fold_dispatch_filter [of current k current updates] byk by simp
  also have "\<dots> = x"
  proof (cases "x = VNil")
    case True
    have "Get (dispatch ?c current) k = VNil"
      using True by (simp add: dispatch_def Get_Add)
    from Get_fold_deletes [OF dels this] True show ?thesis by simp
  next
    case False
    with dx have "?dels = []" by (simp add: filter_key_emitted_current)
    then show ?thesis by (simp add: dispatch_def Get_Add)
  qed
  finally have "Get (fst (fix_updates current updates verbose)) k = x"
    by (simp add: fst_fix_updates)
  with one show ?thesis by simp
qed

theorem create_for_missing_key_witness:
  "distinct (keys [(''a'', VInt 1), (''b'', VInt 2)]) \<and>
   (''b'', VInt 2) \<in> set [(''a'', VInt 1), (''b'', VInt 2)] \<and>
   Get [(''a'', VInt 1), (''c'', VInt 3)] ''b'' = VNil \<and>
   diff [(''a'', VInt 1), (''c'', VInt 3)] [(''a'', VInt 1), (''b'', VInt 2)] =
     Inr [\<lparr>u_key = ''b'', u_state = new, u_v = VInt 2,
            u_why = ''current state doesn'' @ [CHR 0x27] @ ''t have b doesn'' @ [CHR 0x27] @ ''t exist''\<rparr>,
          \<lparr>u_key = ''c'', u_state = old, u_v = VNil,
            u_why = ''currentValue is with key c marked for deletion''\<rparr>] \<and>
   filter (\<lambda>u. u_key u = ''b'' \<and> u_state u = new)
     [\<lparr>u_key = ''b'', u_state = new, u_v = VInt 2,
            u_why = ''current state doesn'' @ [CHR 0x27] @ ''t have b doesn'' @ [CHR 0x27] @ ''t exist''\<rparr>,
          \<lparr>u_key = ''c'', u_state = old, u_v = VNil,
            u_why = ''currentValue is with key c marked for deletion''\<rparr>] =
     [\<lparr>u_key = ''b'', u_state = new, u_v = VInt 2,
            u_why = ''current state doesn'' @ [CHR 0x27] @ ''t have b doesn'' @ [CHR 0x27] @ ''t exist''\<rparr>] \<and>
   Get (fst (fix_updates [(''a'', VInt 1), (''c'', VInt 3)]
     [\<lparr>u_key = ''b'', u_state = new, u_v = VInt 2,
            u_why = ''current state doesn'' @ [CHR 0x27] @ ''t have b doesn'' @ [CHR 0x27] @ ''t exist''\<rparr>,
          \<lparr>u_key = ''c'', u_state = old, u_v = VNil,
            u_why = ''currentValue is with key c marked for deletion''\<rparr>] True)) ''b'' = VInt 2"
proof -
  have h1: "distinct (keys [(''a'', VInt 1), (''b'', VInt 2)])"
    by (simp add: keys_def)
  have h2: "(''b'', VInt 2) \<in> set [(''a'', VInt 1), (''b'', VInt 2)]"
    by simp
  have h3: "Get [(''a'', VInt 1), (''c'', VInt 3)] ''b'' = VNil"
    by (simp add: Get_def)
  have h4: "diff [(''a'', VInt 1), (''c'', VInt 3)] [(''a'', VInt 1), (''b'', VInt 2)] =
     Inr [\<lparr>u_key = ''b'', u_state = new, u_v = VInt 2,
            u_why = ''current state doesn'' @ [CHR 0x27] @ ''t have b doesn'' @ [CHR 0x27] @ ''t exist''\<rparr>,
          \<lparr>u_key = ''c'', u_state = old, u_v = VNil,
            u_why = ''currentValue is with key c marked for deletion''\<rparr>]"
    by (simp add: diff_def visit_desired_def visit_current_def Get_def compare_def DeepEqual_def)
  from create_for_missing_key [OF h1 h2 h3 h4, of True] h1 h2 h3 h4
  show ?thesis by simp
qed

text \<open>
  Claim C2. For every key \<open>k\<close> that \<open>current\<close> holds (with unique keys) and for which
  \<open>Get desired k\<close> reports absence, the action list returned by \<open>diff current desired\<close>
  contains exactly one Delete action for \<open>k\<close>, with the nil value, and after \<open>fix\<close> has
  applied the list, \<open>Get current k\<close> reports absence.
\<close>

theorem delete_for_surplus_key:
  assumes uniq: "distinct (keys current)"
    and present: "k \<in> set (keys current)"
    and absent: "Get desired k = VNil"
    and ret: "diff current desired = Inr updates"
  shows "filter (\<lambda>u. u_key u = k \<and> u_state u = old) updates =
           [\<lparr>u_key = k, u_state = old, u_v = VNil,
             u_why = ''currentValue is with key '' @ k @ '' marked for deletion''\<rparr>] \<and>
         Get (fst (fix_updates current updates verbose)) k = VNil"
proof -
  let ?d = "\<lparr>u_key = k, u_state = old, u_v = VNil,
             u_why = ''currentValue is with key '' @ k @ '' marked for deletion''\<rparr>"
  let ?P1 = "concat (map (emitted_desired current) desired)"
  let ?P2 = "concat (map (emitted_current desired) current)"
  let ?pre = "filter (\<lambda>u. u_key u = k) ?P1"
  have ups: "updates = ?P1 @ ?P2" using ret by (rule diff_Inr)
  from present obtain x where "(k, x) \<in> set current" by (auto simp: keys_def)
  with uniq have "filter (\<lambda>e. fst e = k) current = [(k, x)]"
    by (simp add: filter_distinct_key keys_def)
  with absent have p2: "filter (\<lambda>u. u_key u = k) ?P2 = [?d]"
    by (simp add: filter_key_emitted_current)
  have byk: "filter (\<lambda>u. u_key u = k) updates = ?pre @ [?d]"
    using ups p2 by simp
  have pre: "\<forall>u \<in> set ?pre. u_state u \<noteq> old"
  proof
    fix u assume "u \<in> set ?pre"
    then obtain e where "u \<in> set (emitted_desired current e)" by auto
    from emitted_desired_state [OF this] show "u_state u \<noteq> old" by auto
  qed
  have "filter (\<lambda>u. u_key u = k \<and> u_state u = old) updates =
        filter (\<lambda>u. u_state u = old) (filter (\<lambda>u. u_key u = k) updates)"
    by (simp add: conj_commute)
  also have "\<dots> = filter (\<lambda>u. u_state u = old) ?pre @ [?d]"
    by (simp only: byk) simp
  also have "filter (\<lambda>u. u_state u = old) ?pre = []"
    using pre by (auto simp: filter_empty_conv)
  finally have one: "filter (\<lambda>u. u_key u = k \<and> u_state u = old) updates = [?d]"
    by simp
  have "Get (fold dispatch updates current) k = Get (fold dispatch (?pre @ [?d]) current) k"
    using Get_fold_dispatch_filter [of current k current updates] byk by simp
  also have "\<dots> = VNil"
    by (simp add: dispatch_def Get_Delete)
  finally have "Get (fst (fix_updates current updates verbose)) k = VNil"
    by (simp add: fst_fix_updates)
  with one show ?thesis by simp
qed

theorem delete_for_surplus_key_witness:
  "distinct (keys [(''a'', VInt 1), (''c'', VInt 3)]) \<and>
   ''c'' \<in> set (keys [(''a'', VInt 1), (''c'', VInt 3)]) \<and>
   Get [(''a'', VInt 1), (''b'', VInt 2)] ''c'' = VNil \<and>
   diff [(''a'', VInt 1), (''c'', VInt 3)] [(''a'', VInt 1), (''b'', VInt 2)] =
     Inr [\<lparr>u_key = ''b'', u_state = new, u_v = VInt 2,
            u_why = ''current state doesn'' @ [CHR 0x27] @ ''t have b doesn'' @ [CHR 0x27] @ ''t exist''\<rparr>,
          \<lparr>u_key = ''c'', u_state = old, u_v = VNil,
            u_why = ''currentValue is with key c marked for deletion''\<rparr>] \<and>
   filter (\<lambda>u. u_key u = ''c'' \<and> u_state u = old)
     [\<lparr>u_key = ''b'', u_state = new, u_v = VInt 2,
            u_why = ''current state doesn'' @ [CHR 0x27] @ ''t have b doesn'' @ [CHR 0x27] @ ''t exist''\<rparr>,
          \<lparr>u_key = ''c'', u_state = old, u_v = VNil,
            u_why = ''currentValue is with key c marked for deletion''\<rparr>] =
     [\<lparr>u_key = ''c'', u_state = old, u_v = VNil,
            u_why = ''currentValue is with key c marked for deletion''\<rparr>] \<and>
   Get (fst (fix_updates [(''a'', VInt 1), (''c'', VInt 3)]
     [\<lparr>u_key = ''b'', u_state = new, u_v = VInt 2,
            u_why = ''current state doesn'' @ [CHR 0x27] @ ''t have b doesn'' @ [CHR 0x27] @ ''t exist''\<rparr>,
          \<lparr>u_key = ''c'', u_state = old, u_v = VNil,
            u_why = ''currentValue is with key c marked for deletion''\<rparr>] False)) ''c'' = VNil"
proof -
  have h1: "distinct (keys [(''a'', VInt 1), (''c'', VInt 3)])"
    by (simp add: keys_def)
  have h2: "''c'' \<in> set (keys [(''a'', VInt 1), (''c'', VInt 3)])"
    by (simp add: keys_def)
  have h3: "Get [(''a'', VInt 1), (''b'', VInt 2)] ''c'' = VNil"
    by (simp add: Get_def)
  have h4: "diff [(''a'', VInt 1), (''c'', VInt 3)] [(''a'', VInt 1), (''b'', VInt 2)] =
     Inr [\<lparr>u_key = ''b'', u_state = new, u_v = VInt 2,
            u_why = ''current state doesn'' @ [CHR 0x27] @ ''t have b doesn'' @ [CHR 0x27] @ ''t exist''\<rparr>,
          \<lparr>u_key = ''c'', u_state = old, u_v = VNil,
            u_why = ''currentValue is with key c marked for deletion''\<rparr>]"
    by (simp add: diff_def visit_desired_def visit_current_def Get_def compare_def DeepEqual_def)
  from delete_for_surplus_key [OF h1 h2 h3 h4, of False] h1 h2 h3 h4
  show ?thesis by simp
qed

text \<open>
  Claim C3, as amended. For every pair of states in which \<open>desired\<close> stores no nil
  value (so that \<open>Get desired\<close> reports absence for no key that \<open>Walk\<close> visits) and
  every key \<open>k\<close>, the action list returned by \<open>diff current desired\<close> contains at most
  one action for \<open>k\<close>: a key never receives an action of the first walk and a Delete of
  the second walk in one pass. (The keys of a store are unique.)
\<close>

theorem at_most_one_action_per_key:
  assumes uc: "distinct (keys current)" and wd: "well_formed desired"
    and ret: "diff current desired = Inr updates"
  shows "length (filter (\<lambda>u. u_key u = k) updates) \<le> 1"
proof -
  let ?P1 = "concat (map (emitted_desired current) desired)"
  let ?P2 = "concat (map (emitted_current desired) current)"
  have ups: "updates = ?P1 @ ?P2" using ret by (rule diff_Inr)
  from wd have ud: "distinct (keys desired)" and nd: "VNil \<notin> snd ` set desired"
    by (simp_all add: well_formed_def)
  show ?thesis
  proof (cases "k \<in> set (keys desired)")
    case True
    then obtain x where x: "(k, x) \<in> set desired" by (auto simp: keys_def)
    from True nd have "Get desired k \<noteq> VNil" by (simp add: Get_nil_iff)
    then have "filter (\<lambda>u. u_key u = k) ?P2 = []"
      by (simp add: filter_key_emitted_current)
    moreover have "filter (\<lambda>u. u_key u = k) ?P1 = emitted_desired current (k, x)"
      using ud x by (rule filter_key_emitted_desired)
    moreover have "length (emitted_desired current (k, x)) \<le> 1"
      using emitted_desired_cases [of current k x] by auto
    ultimately show ?thesis using ups by simp
  next
    case False
    then have p1: "filter (\<lambda>u. u_key u = k) ?P1 = []"
      by (rule filter_key_emitted_desired_other)
    have "length (filter (\<lambda>e. fst e = k) current) \<le> 1"
    proof (cases "k \<in> set (keys current)")
      case True
      then obtain y where "(k, y) \<in> set current" by (auto simp: keys_def)
      with uc show ?thesis by (simp add: filter_distinct_key keys_def)
    next
      case False
      then have "filter (\<lambda>e. fst e = k) current = []"
        by (auto simp: filter_empty_conv keys_def)
      then show ?thesis by simp
    qed
    then have "length (filter (\<lambda>u. u_key u = k) ?P2) \<le> 1"
      by (simp add: filter_key_emitted_current)
    with p1 ups show ?thesis by simp
  qed
qed

theorem at_most_one_action_per_key_witness:
  "distinct (keys [(''a'', VInt 1), (''c'', VInt 3)]) \<and>
   well_formed [(''a'', VInt 2), (''b'', VInt 2)] \<and>
   diff [(''a'', VInt 1), (''c'', VInt 3)] [(''a'', VInt 2), (''b'', VInt 2)] =
     Inr [\<lparr>u_key = ''a'', u_state = dirty, u_v = VInt 2, u_why = ''reflect.Deepequal mismatch''\<rparr>,
          \<lparr>u_key = ''b'', u_state = new, u_v = VInt 2,
            u_why = ''current state doesn'' @ [CHR 0x27] @ ''t have b doesn'' @ [CHR 0x27] @ ''t exist''\<rparr>,
          \<lparr>u_key = ''c'', u_state = old, u_v = VNil,
            u_why = ''currentValue is with key c marked for deletion''\<rparr>] \<and>
   length (filter (\<lambda>u. u_key u = ''a'')
     [\<lparr>u_key = ''a'', u_state = dirty, u_v = VInt 2, u_why = ''reflect.Deepequal mismatch''\<rparr>,
          \<lparr>u_key = ''b'', u_state = new, u_v = VInt 2,
            u_why = ''current state doesn'' @ [CHR 0x27] @ ''t have b doesn'' @ [CHR 0x27] @ ''t exist''\<rparr>,
          \<lparr>u_key = ''c'', u_state = old, u_v = VNil,
            u_why = ''currentValue is with key c marked for deletion''\<rparr>]) \<le> 1"
proof -
  have h1: "distinct (keys [(''a'', VInt 1), (''c'', VInt 3)])"
    by (simp add: keys_def)
  have h2: "well_formed [(''a'', VInt 2), (''b'', VInt 2)]"
    by (simp add: well_formed_def keys_def)
  have h3: "diff [(''a'', VInt 1), (''c'', VInt 3)] [(''a'', VInt 2), (''b'', VInt 2)] =
     Inr [\<lparr>u_key = ''a'', u_state = dirty, u_v = VInt 2, u_why = ''reflect.Deepequal mismatch''\<rparr>,
          \<lparr>u_key = ''b'', u_state = new, u_v = VInt 2,
            u_why = ''current state doesn'' @ [CHR 0x27] @ ''t have b doesn'' @ [CHR 0x27] @ ''t exist''\<rparr>,
          \<lparr>u_key = ''c'', u_state = old, u_v = VNil,
            u_why = ''currentValue is with key c marked for deletion''\<rparr>]"
    by (simp add: diff_def visit_desired_def visit_current_def Get_def compare_def DeepEqual_def)
  from at_most_one_action_per_key [OF h1 h2 h3, of "''a''"] h1 h2 h3
  show ?thesis by simp
qed

text \<open>
  Claim C3 as stated fails: the two walks test presence in \<open>desired\<close> differently, the
  first by \<open>Walk\<close> and the second by \<open>Get\<close>. When \<open>desired\<close> holds the nil interface
  under a key that \<open>current\<close> holds too, the key receives an Update from the first walk
  and a Delete from the second.
\<close>

theorem at_most_one_action_per_key_counterexample:
  "distinct (keys [(''k'', VInt 1)]) \<and> distinct (keys [(''k'', VNil)]) \<and>
   diff [(''k'', VInt 1)] [(''k'', VNil)] =
     Inr [\<lparr>u_key = ''k'', u_state = dirty, u_v = VNil, u_why = ''reflect.Deepequal mismatch''\<rparr>,
          \<lparr>u_key = ''k'', u_state = old, u_v = VNil,
            u_why = ''currentValue is with key k marked for deletion''\<rparr>] \<and>
   map u_key
     [\<lparr>u_key = ''k'', u_state = dirty, u_v = VNil, u_why = ''reflect.Deepequal mismatch''\<rparr>,
      \<lparr>u_key = ''k'', u_state = old, u_v = VNil,
        u_why = ''currentValue is with key k marked for deletion''\<rparr>] = [''k'', ''k'']"
  by (simp add: keys_def diff_def visit_desired_def visit_current_def Get_def compare_def
      DeepEqual_def)

text \<open>
  Claim C4. In the action list returned by \<open>diff\<close>, every Create and every Update action
  stands before every Delete action: deletions are never interleaved with creations or
  updates.
\<close>

theorem creates_and_updates_before_deletes:
  assumes ret: "diff current desired = Inr updates"
  shows "\<forall>i j. i < length updates \<and> j < length updates \<and>
               (u_state (updates ! i) = new \<or> u_state (updates ! i) = dirty) \<and>
               u_state (updates ! j) = old \<longrightarrow> i < j"
proof (intro allI impI)
  fix i j
  define P1 where "P1 = concat (map (emitted_desired current) desired)"
  define P2 where "P2 = concat (map (emitted_current desired) current)"
  assume a: "i < length updates \<and> j < length updates \<and>
             (u_state (updates ! i) = new \<or> u_state (updates ! i) = dirty) \<and>
             u_state (updates ! j) = old"
  have ups: "updates = P1 @ P2"
    unfolding P1_def P2_def using ret by (rule diff_Inr)
  have s1: "\<forall>u \<in> set P1. u_state u = new \<or> u_state u = dirty"
    unfolding P1_def using emitted_desired_state by auto
  have s2: "\<forall>u \<in> set P2. u_state u = old"
    unfolding P2_def using emitted_current_state by auto
  have "i < length P1"
  proof (rule ccontr)
    assume n: "\<not> i < length P1"
    with a ups have "i - length P1 < length P2" by auto
    then have "P2 ! (i - length P1) \<in> set P2" by (rule nth_mem)
    with n ups have "updates ! i \<in> set P2" by (simp add: nth_append)
    with s2 have "u_state (updates ! i) = old" by blast
    with a show False by auto
  qed
  moreover have "\<not> j < length P1"
  proof
    assume l: "j < length P1"
    then have "P1 ! j \<in> set P1" by (rule nth_mem)
    with l ups have "updates ! j \<in> set P1" by (simp add: nth_append)
    with s1 have "u_state (updates ! j) = new \<or> u_state (updates ! j) = dirty" by blast
    with a show False by auto
  qed
  ultimately show "i < j" by simp
qed

theorem creates_and_updates_before_deletes_witness:
  "diff [(''c'', VInt 3), (''a'', VInt 1)] [(''a'', VInt 2), (''b'', VInt 2)] =
     Inr [\<lparr>u_key = ''a'', u_state = dirty, u_v = VInt 2, u_why = ''reflect.Deepequal mismatch''\<rparr>,
          \<lparr>u_key = ''b'', u_state = new, u_v = VInt 2,
            u_why = ''current state doesn'' @ [CHR 0x27] @ ''t have b doesn'' @ [CHR 0x27] @ ''t exist''\<rparr>,
          \<lparr>u_key = ''c'', u_state = old, u_v = VNil,
            u_why = ''currentValue is with key c marked for deletion''\<rparr>] \<and>
   u_state ([\<lparr>u_key = ''a'', u_state = dirty, u_v = VInt 2, u_why = ''reflect.Deepequal mismatch''\<rparr>,
          \<lparr>u_key = ''b'', u_state = new, u_v = VInt 2,
            u_why = ''current state doesn'' @ [CHR 0x27] @ ''t have b doesn'' @ [CHR 0x27] @ ''t exist''\<rparr>,
          \<lparr>u_key = ''c'', u_state = old, u_v = VNil,
            u_why = ''currentValue is with key c marked for deletion''\<rparr>] ! 1) = new \<and>
   u_state ([\<lparr>u_key = ''a'', u_state = dirty, u_v = VInt 2, u_why = ''reflect.Deepequal mismatch''\<rparr>,
          \<lparr>u_key = ''b'', u_state = new, u_v = VInt 2,
            u_why = ''current state doesn'' @ [CHR 0x27] @ ''t have b doesn'' @ [CHR 0x27] @ ''t exist''\<rparr>,
          \<lparr>u_key = ''c'', u_state = old, u_v = VNil,
            u_why = ''currentValue is with key c marked for deletion''\<rparr>] ! 2) = old \<and>
   (1::nat) < 2"
proof -
  have h: "diff [(''c'', VInt 3), (''a'', VInt 1)] [(''a'', VInt 2), (''b'', VInt 2)] =
     Inr [\<lparr>u_key = ''a'', u_state = dirty, u_v = VInt 2, u_why = ''reflect.Deepequal mismatch''\<rparr>,
          \<lparr>u_key = ''b'', u_state = new, u_v = VInt 2,
            u_why = ''current state doesn'' @ [CHR 0x27] @ ''t have b doesn'' @ [CHR 0x27] @ ''t exist''\<rparr>,
          \<lparr>u_key = ''c'', u_state = old, u_v = VNil,
            u_why = ''currentValue is with key c marked for deletion''\<rparr>]"
    by (simp add: diff_def visit_desired_def visit_current_def Get_def compare_def DeepEqual_def)
  from creates_and_updates_before_deletes [OF h, rule_format, of 1 2] h
  show ?thesis by simp
qed

text \<open>
  Claim C5, as amended. If two states are identical in content (the same keys, and
  values that \<open>compare\<close> finds equal) and store no nil value, \<open>diff\<close> returns the empty
  action list for them; and when \<open>Reconcile current desired verbose\<close> has returned, the
  store applying every mutation, for a \<open>desired\<close> that stores no nil value and whose
  values \<open>compare\<close> finds equal to themselves, a second \<open>diff\<close> of the reconciled store
  against \<open>desired\<close> is empty. (The keys of a store are unique.)
\<close>

theorem diff_empty_on_converged_states:
  "(well_formed B \<and> set (keys A) = set (keys B) \<and>
    (\<forall>k \<in> set (keys B). compare (Get A k) (Get B k) = Inr None)
      \<longrightarrow> diff A B = Inr []) \<and>
   (well_formed desired \<and> (\<forall>x \<in> snd ` set desired. compare x x = Inr None) \<and>
    Reconcile current desired verbose = Inr (current', logged)
      \<longrightarrow> diff current' desired = Inr [])"
proof (intro conjI impI)
  assume a: "well_formed B \<and> set (keys A) = set (keys B) \<and>
    (\<forall>k \<in> set (keys B). compare (Get A k) (Get B k) = Inr None)"
  then have wb: "well_formed B"
    and same: "set (keys A) = set (keys B)"
    and eq: "\<forall>k \<in> set (keys B). compare (Get A k) (Get B k) = Inr None"
    by simp_all
  from wb have nb: "VNil \<notin> snd ` set B" by (simp add: well_formed_def)
  show "diff A B = Inr []"
  proof (rule diff_empty)
    fix k x assume in_b: "(k, x) \<in> set B"
    then have kb: "k \<in> set (keys B)" by (force simp: keys_def)
    from Get_well_formed [OF wb in_b] have gb: "Get B k = x" and xn: "x \<noteq> VNil"
      by simp_all
    from eq kb gb have c: "compare (Get A k) x = Inr None" by auto
    have "Get A k \<noteq> VNil"
    proof
      assume "Get A k = VNil"
      with c xn show False by (simp add: compare_def DeepEqual_def)
    qed
    with c show "Get A k \<noteq> VNil \<and> compare (Get A k) x = Inr None" by simp
  next
    fix k assume "k \<in> set (keys A)"
    with same nb show "Get B k \<noteq> VNil" by (simp add: Get_nil_iff)
  qed
next
  assume "well_formed desired \<and> (\<forall>x \<in> snd ` set desired. compare x x = Inr None) \<and>
          Reconcile current desired verbose = Inr (current', logged)"
  then have wd: "well_formed desired"
    and self: "\<forall>x \<in> snd ` set desired. compare x x = Inr None"
    and r: "Reconcile current desired verbose = Inr (current', logged)" by simp_all
  have self': "compare x x = Inr None" if "(k, x) \<in> set desired" for k x
  proof -
    from that have "x \<in> snd ` set desired" by force
    with self show ?thesis by blast
  qed
  from Reconcile_Inr [OF r] obtain updates where
    "diff current desired = Inr updates" and "current' = fold dispatch updates current"
    by blast
  with second_diff_empty [OF wd self'] show "diff current' desired = Inr []" by simp
qed

theorem diff_empty_on_converged_states_witness:
  "well_formed [(''k'', VSummed ''copy'' (Bytes [1, 2] [0])), (''m'', VInt 5)] \<and>
   set (keys [(''m'', VInt 5), (''k'', VSummed ''blob'' (Bytes [1, 2] []))]) =
     set (keys [(''k'', VSummed ''copy'' (Bytes [1, 2] [0])), (''m'', VInt 5)]) \<and>
   compare (VInt 5) (VInt 5) = Inr None \<and>
   compare (VSummed ''blob'' (Bytes [1, 2] [])) (VSummed ''copy'' (Bytes [1, 2] [0])) = Inr None \<and>
   diff [(''m'', VInt 5), (''k'', VSummed ''blob'' (Bytes [1, 2] []))]
        [(''k'', VSummed ''copy'' (Bytes [1, 2] [0])), (''m'', VInt 5)] = Inr [] \<and>
   well_formed [(''a'', VInt 1), (''b'', VInt 2)] \<and>
   compare (VInt 1) (VInt 1) = Inr None \<and> compare (VInt 2) (VInt 2) = Inr None \<and>
   Reconcile [(''a'', VInt 1), (''c'', VInt 3)] [(''a'', VInt 1), (''b'', VInt 2)] False =
     Inr ([(''a'', VInt 1), (''b'', VInt 2)], []) \<and>
   diff [(''a'', VInt 1), (''b'', VInt 2)] [(''a'', VInt 1), (''b'', VInt 2)] = Inr []"
proof -
  let ?A = "[(''m'', VInt 5), (''k'', VSummed ''blob'' (Bytes [1, 2] []))]"
  let ?B = "[(''k'', VSummed ''copy'' (Bytes [1, 2] [0])), (''m'', VInt 5)]"
  let ?D = "[(''a'', VInt 1), (''b'', VInt 2)]"
  have h2: "well_formed ?B" by (simp add: well_formed_def keys_def)
  have h3: "set (keys ?A) = set (keys ?B)" by (auto simp: keys_def)
  have h4: "compare (VInt 5) (VInt 5) = Inr None"
    by (simp add: compare_def DeepEqual_def)
  have h5: "compare (VSummed ''blob'' (Bytes [1, 2] [])) (VSummed ''copy'' (Bytes [1, 2] [0])) =
            Inr None"
    by (simp add: compare_def bytes_Compare_ne_def)
  have h6: "\<forall>k \<in> set (keys ?B). compare (Get ?A k) (Get ?B k) = Inr None"
    using h4 h5 by (simp add: keys_def Get_def)
  have h7: "well_formed ?D"
    by (simp add: well_formed_def keys_def)
  have s1: "compare (VInt 1) (VInt 1) = Inr None" and s2: "compare (VInt 2) (VInt 2) = Inr None"
    by (simp_all add: compare_def DeepEqual_def)
  then have h9: "\<forall>x \<in> snd ` set ?D. compare x x = Inr None" by simp
  have h8: "Reconcile [(''a'', VInt 1), (''c'', VInt 3)] ?D False = Inr (?D, [])"
    by (simp add: Reconcile_def diff_def visit_desired_def visit_current_def Get_def compare_def
        DeepEqual_def dispatch_def Delete_def)
  from diff_empty_on_converged_states
         [of ?B ?A ?D "[(''a'', VInt 1), (''c'', VInt 3)]" False ?D "[]"]
       h2 h3 h6 h7 h8 h9
  have "diff ?A ?B = Inr [] \<and> diff ?D ?D = Inr []"
    by blast
  with h2 h3 h4 h5 h7 h8 s1 s2 show ?thesis by blast
qed

text \<open>
  Claim C5 as stated fails in both halves. A state that holds the nil interface under a
  key is identical in content to itself, and \<open>diff\<close> of it against itself returns a Create
  and a Delete for that key; the same state is what \<open>Reconcile\<close> leaves when \<open>desired\<close>
  holds nil. And \<^verbatim>\<open>reflect.DeepEqual\<close> finds a NaN unequal to itself, so after
  \<open>Reconcile\<close> has stored the NaN of \<open>desired\<close>, the second \<open>diff\<close> returns an Update.
\<close>

theorem diff_empty_on_converged_states_counterexample:
  "compare VNil VNil = Inr None \<and>
   diff [(''k'', VNil)] [(''k'', VNil)] =
     Inr [\<lparr>u_key = ''k'', u_state = new, u_v = VNil,
            u_why = ''current state doesn'' @ [CHR 0x27] @ ''t have k doesn'' @ [CHR 0x27] @ ''t exist''\<rparr>,
          \<lparr>u_key = ''k'', u_state = old, u_v = VNil,
            u_why = ''currentValue is with key k marked for deletion''\<rparr>] \<and>
   Reconcile [] [(''k'', VNil)] False = Inr ([(''k'', VNil)], []) \<and>
   Reconcile [] [(''k'', VNaN)] False = Inr ([(''k'', VNaN)], []) \<and>
   diff [(''k'', VNaN)] [(''k'', VNaN)] =
     Inr [\<lparr>u_key = ''k'', u_state = dirty, u_v = VNaN, u_why = ''reflect.Deepequal mismatch''\<rparr>]"
  by (simp add: Reconcile_def diff_def visit_desired_def visit_current_def Get_def compare_def
      DeepEqual_def dispatch_def)

section \<open>Claims about compare and the trace\<close>

text \<open>
  Claim C6. For values that both have a checksum, \<open>compare\<close> is to answer a match on
  equal checksums and a mismatch, whose reason shows five bytes of each checksum, on
  unequal ones. On two unequal four-byte checksums the code panics in
  \<^verbatim>\<open>desiredSum[:5]\<close> instead of answering the mismatch.
\<close>

theorem compare_short_checksums_panics:
  "Checksumed (VSummed ''current'' (Bytes [0xDE, 0xAD, 0xBE, 0xEF] [])) =
     Some (Bytes [0xDE, 0xAD, 0xBE, 0xEF] []) \<and>
   Checksumed (VSummed ''desired'' (Bytes [0xDE, 0xAD, 0xBE, 0xEE] [])) =
     Some (Bytes [0xDE, 0xAD, 0xBE, 0xEE] []) \<and>
   compare (VSummed ''current'' (Bytes [0xDE, 0xAD, 0xBE, 0xEF] []))
           (VSummed ''desired'' (Bytes [0xDE, 0xAD, 0xBE, 0xEE] [])) =
     Inl (SliceBoundsOutOfRange 5 4)"
  by (simp add: compare_def bytes_Compare_ne_def slice_to_def cap_def)

text \<open>
  Claim C7. The diff pass is to complete without fault whatever the checksums' lengths.
  With the states below, whose single key holds values with unequal four-byte checksums,
  \<open>diff\<close> panics in \<open>compare\<close>, and so does \<open>Reconcile\<close>.
\<close>

theorem Reconcile_short_checksums_panics:
  "diff [(''k'', VSummed ''current'' (Bytes [0xDE, 0xAD, 0xBE, 0xEF] []))]
        [(''k'', VSummed ''desired'' (Bytes [0xDE, 0xAD, 0xBE, 0xEE] []))] =
     Inl (SliceBoundsOutOfRange 5 4) \<and>
   Reconcile [(''k'', VSummed ''current'' (Bytes [0xDE, 0xAD, 0xBE, 0xEF] []))]
             [(''k'', VSummed ''desired'' (Bytes [0xDE, 0xAD, 0xBE, 0xEE] []))] verbose =
     Inl (SliceBoundsOutOfRange 5 4)"
  by (simp add: Reconcile_def diff_def visit_desired_def Get_def compare_def
      bytes_Compare_ne_def slice_to_def cap_def)

text \<open>
  Claim C8. When at most one of the two values has a checksum, \<open>compare\<close> falls back
  to \<^verbatim>\<open>reflect.DeepEqual\<close>: deeply equal values give the nil error (a match), the
  others (unequal values, and a NaN against itself) give \<open>ErrDeepEqualMismatch\<close>, which carries the generic reason only; there is no third
  outcome.
\<close>

theorem compare_falls_back_to_DeepEqual:
  assumes "Checksumed a = None \<or> Checksumed b = None"
  shows "compare a b = (if DeepEqual a b then Inr None else Inr (Some ErrDeepEqualMismatch)) \<and>
         DeepEqual a b = (a = b \<and> a \<noteq> VNaN) \<and>
         Error ErrDeepEqualMismatch = ''reflect.Deepequal mismatch''"
  using assms by (auto simp: compare_def DeepEqual_def split: option.splits)

theorem compare_falls_back_to_DeepEqual_witness:
  "(Checksumed (VStr ''old'') = None \<or> Checksumed (VStr ''new'') = None) \<and>
   compare (VStr ''old'') (VStr ''new'') = Inr (Some ErrDeepEqualMismatch) \<and>
   Error ErrDeepEqualMismatch = ''reflect.Deepequal mismatch''"
proof -
  have h: "Checksumed (VStr ''old'') = None \<or> Checksumed (VStr ''new'') = None" by simp
  from compare_falls_back_to_DeepEqual [OF h] h show ?thesis by simp
qed

text \<open>
  Claim C9, as amended. For every list of actions of the three kinds applied with
  \<open>verbose\<close> set, \<open>fix\<close> logs one message per action, in order, made of the key, the
  kind rendered as \<open>Add\<close> (for a Create action), \<open>Delete\<close> or \<open>Update\<close>, and the
  reason. (The logger puts its own header before each message.)
\<close>

theorem trace_labels:
  assumes "\<forall>u \<in> set updates. u_state u = new \<or> u_state u = old \<or> u_state u = dirty"
  shows "snd (fix_updates current updates True) =
           map (\<lambda>u. ''key:'' @ u_key u @ '' state:'' @
                     (if u_state u = new then ''Add''
                      else if u_state u = old then ''Delete'' else ''Update'') @
                     [CHR 0x0A, CHR 0x09] @ ''why:'' @ u_why u @ [CHR 0x0A] @ '' '') updates"
proof -
  have "trace_line u = ''key:'' @ u_key u @ '' state:'' @
                     (if u_state u = new then ''Add''
                      else if u_state u = old then ''Delete'' else ''Update'') @
                     [CHR 0x0A, CHR 0x09] @ ''why:'' @ u_why u @ [CHR 0x0A] @ '' ''"
    if "u \<in> set updates" for u
  proof -
    from assms that have "u_state u = new \<or> u_state u = old \<or> u_state u = dirty" by blast
    then show ?thesis by (auto simp: trace_line_def state_String_def)
  qed
  then show ?thesis by (simp add: snd_fix_updates)
qed

theorem trace_labels_witness:
  "u_state \<lparr>u_key = ''c'', u_state = old, u_v = VNil, u_why = ''gone''\<rparr> = old \<and>
   snd (fix_updates [(''c'', VInt 3)]
          [\<lparr>u_key = ''c'', u_state = old, u_v = VNil, u_why = ''gone''\<rparr>] True) =
     [''key:c state:Delete'' @ [CHR 0x0A, CHR 0x09] @ ''why:gone'' @ [CHR 0x0A] @ '' '']"
proof -
  have h: "\<forall>u \<in> set [\<lparr>u_key = ''c'', u_state = old, u_v = VNil, u_why = ''gone''\<rparr>].
             u_state u = new \<or> u_state u = old \<or> u_state u = dirty"
    by simp
  from trace_labels [OF h, of "[(''c'', VInt 3)]"] show ?thesis by simp
qed

text \<open>
  Claim C9 as stated fails: the Create action that \<open>diff\<close> returns for a key missing
  from \<open>current\<close> is logged with the label \<open>Add\<close>, which is none of \<open>Create\<close>,
  \<open>Delete\<close>, \<open>Update\<close>.
\<close>

theorem trace_labels_counterexample:
  "diff [] [(''x'', VStr ''v'')] =
     Inr [\<lparr>u_key = ''x'', u_state = new, u_v = VStr ''v'',
            u_why = ''current state doesn'' @ [CHR 0x27] @ ''t have x doesn'' @ [CHR 0x27] @ ''t exist''\<rparr>] \<and>
   snd (fix_updates []
     [\<lparr>u_key = ''x'', u_state = new, u_v = VStr ''v'',
            u_why = ''current state doesn'' @ [CHR 0x27] @ ''t have x doesn'' @ [CHR 0x27] @ ''t exist''\<rparr>]
     True) =
     [''key:x state:Add'' @ [CHR 0x0A, CHR 0x09] @
      ''why:current state doesn'' @ [CHR 0x27] @ ''t have x doesn'' @ [CHR 0x27] @ ''t exist'' @
      [CHR 0x0A] @ '' ''] \<and>
   state_String new = ''Add'' \<and>
   state_String new \<notin> {''Create'', ''Delete'', ''Update''}"
  by (simp add: diff_def visit_desired_def Get_def trace_line_def state_String_def)

section \<open>Claim about ParseSourceErrors\<close>

text \<open>
  Claim C10. For every line of the input of the column-less form
  \<^verbatim>\<open>{filename}.{fileext}:{line}: {message}\<close> (alphanumeric file name and extension,
  decimal line number, a message without a newline; the line starts the input or follows
  a newline, and ends the input or is followed by a newline), \<open>ParseSourceErrors\<close>
  returns an \<open>Error\<close> for it that has \<open>Column = -1\<close> and the trailing message text as
  its \<open>Message\<close>, not the empty column capture. The \<open>Error\<close>s before it come from the
  lines before and those after it from the lines after.
\<close>

theorem column_less_message:
  assumes "fname \<noteq> []" and "list_all is_alnum fname"
    and "ext \<noteq> []" and "list_all is_alnum ext"
    and "line \<noteq> []" and "list_all is_digit line"
    and "CHR 0x0A \<notin> set msg"
    and "before = [] \<or> last before = CHR 0x0A"
    and "after = [] \<or> hd after = CHR 0x0A"
  shows "\<exists>earlier later.
           ParseSourceErrors
             (before @ fname @ ''.'' @ ext @ '':'' @ line @ '': '' @ msg @ after) =
             earlier @
             \<lparr>File = fname @ ''.'' @ ext,
              Line = (case Atoi line of Some n \<Rightarrow> n | None \<Rightarrow> 0),
              Column = - 1,
              Message = msg\<rparr> # later \<and>
           (before = [] \<longrightarrow> earlier = []) \<and>
           (after = [] \<longrightarrow> later = [])"
proof -
  let ?in = "fname @ ''.'' @ ext @ '':'' @ line @ '': '' @ msg @ after"
  let ?caps = "[(4, msg), (2, line), (1, fname @ ''.'' @ ext)]"
  let ?sub = "submatches (NumSubexp validMessage) ?in after ?caps"
  let ?later = "map parse_match (FindAllStringSubmatch validMessage True after)"
  have "first_thread validMessage (?in, []) = Some (after, ?caps)"
    using assms(1-7,9) by (rule first_thread_validMessage)
  then have se: "search validMessage ?in = Some (?in, after, ?caps)"
    by (rule search_first_thread)
  have shorter: "length after < length ?in" by simp
  from FindAllStringSubmatch_before [OF newline_free_validMessage se shorter assms(8), of False]
  obtain pre where fa: "FindAllStringSubmatch validMessage False (before @ ?in) =
      pre @ ?sub # FindAllStringSubmatch validMessage True after"
    and first: "before = [] \<longrightarrow> pre = []"
    by blast
  have eq: "(fname @ ''.'' @ ext @ '':'' @ line @ '': '' @ msg) @ after = ?in"
    by simp
  have whole: "take (length ?in - length after) ?in =
               fname @ ''.'' @ ext @ '':'' @ line @ '': '' @ msg"
    using take_consumed [of "fname @ ''.'' @ ext @ '':'' @ line @ '': '' @ msg" after]
    unfolding eq .
  have sub: "?sub = [fname @ ''.'' @ ext @ '':'' @ line @ '': '' @ msg,
                     fname @ ''.'' @ ext, line, [], msg]"
    unfolding submatches_def whole NumSubexp_validMessage by (simp add: upt_rec)
  have r1: "ParseSourceErrors (before @ ?in) =
            map parse_match pre @
            parse_match [fname @ ''.'' @ ext @ '':'' @ line @ '': '' @ msg,
                         fname @ ''.'' @ ext, line, [], msg] # ?later"
    unfolding ParseSourceErrors_def fa sub by (simp only: map_append list.map)
  have r2: "parse_match [fname @ ''.'' @ ext @ '':'' @ line @ '': '' @ msg,
                         fname @ ''.'' @ ext, line, [], msg] =
            \<lparr>File = fname @ ''.'' @ ext,
             Line = (case Atoi line of Some n \<Rightarrow> n | None \<Rightarrow> 0),
             Column = - 1,
             Message = msg\<rparr>"
    by (simp add: parse_match_def Atoi_Nil split: option.splits)
  have r3: "after = [] \<longrightarrow> ?later = []"
    by (simp add: FindAllStringSubmatch_validMessage_Nil)
  show ?thesis
  proof (intro exI conjI)
    show "ParseSourceErrors (before @ ?in) =
          map parse_match pre @
          \<lparr>File = fname @ ''.'' @ ext,
           Line = (case Atoi line of Some n \<Rightarrow> n | None \<Rightarrow> 0),
           Column = - 1,
           Message = msg\<rparr> # ?later"
      unfolding r1 r2 ..
    show "before = [] \<longrightarrow> map parse_match pre = []" using first by simp
    show "after = [] \<longrightarrow> ?later = []" by (rule r3)
  qed
qed

theorem column_less_message_witness:
  "list_all is_alnum ''xxx'' \<and> list_all is_alnum ''yyy'' \<and> list_all is_digit ''01'' \<and>
   CHR 0x0A \<notin> set ''some message'' \<and>
   ParseSourceErrors ''xxx.yyy:01: some message'' =
     [\<lparr>File = ''xxx.yyy'', Line = 1, Column = - 1, Message = ''some message''\<rparr>]"
proof -
  have h1: "''xxx'' \<noteq> []" and h3: "''yyy'' \<noteq> []" and h5: "''01'' \<noteq> []" by simp_all
  have h2: "list_all is_alnum ''xxx''" and h4: "list_all is_alnum ''yyy''"
    by (simp_all add: is_alnum_def byte_in_def)
  have h6: "list_all is_digit ''01''" by (simp add: is_digit_def byte_in_def)
  have h7: "CHR 0x0A \<notin> set ''some message''" by simp
  have h8: "([] :: string) = [] \<or> last ([] :: string) = CHR 0x0A" by simp
  have h9: "([] :: string) = [] \<or> hd ([] :: string) = CHR 0x0A" by simp
  have a: "Atoi ''01'' = Some 1"
    by (simp add: Atoi_def is_digit_def byte_in_def digits_value_def)
  from column_less_message [OF h1 h2 h3 h4 h5 h6 h7 h8 h9] a
  have "ParseSourceErrors ''xxx.yyy:01: some message'' =
     [\<lparr>File = ''xxx.yyy'', Line = 1, Column = - 1, Message = ''some message''\<rparr>]"
    by auto
  with h2 h4 h6 h7 show ?thesis by blast
qed

end
